theory Spec2Isabelle
  imports Main "HOL-Library.Word" "HOL-Library.Signed_Division"
begin

chapter \<open>The model\<close>

section \<open>Data model of the harnesses\<close>

text \<open>
  Go's fixed-width integers. \<open>int64\<close> shares the representation of \<open>uint64\<close>: it is a
  64-bit word read with \<open>sint\<close>, and the conversion \<open>uint64(x)\<close> of an \<open>int64\<close> keeps
  the bits.
\<close>

type_synonym u8 = "8 word"
type_synonym u32 = "32 word"
type_synonym u64 = "64 word"
type_synonym i64 = "64 word"

text \<open>
  \<open>queue.Order\<close> as the harnesses fill it. The struct is declared in package
  \<open>oms/queue\<close>; the harness files do not agree on the type of \<open>Symbol\<close>
  (\<open>main.go\<close> and \<open>part_000\<close> build an \<open>[8]byte\<close>, \<open>part_001\<close> and
  \<open>perf_cont.go\<close> assign the integer constant \<open>0\<close>), so the record takes the type
  of that field as a parameter.
\<close>

record 'sym order =
  OrderID :: u64
  ClientID :: u32
  Symbol :: 'sym
  Quantity :: u32
  Price :: u64
  Side :: u8
  Timestamp :: u64
  Status :: u8

text \<open>An \<open>[8]byte\<close> array is a list of eight bytes.\<close>

type_synonym bytes8 = "u8 list"
type_synonym order8 = "bytes8 order"

definition byte_of_char :: "char \<Rightarrow> u8" where
  "byte_of_char c = of_nat (of_char c)"


text \<open>
  The environment of a producer: \<open>clock k\<close> is the value of the \<open>k\<close>-th evaluation of
  \<open>uint64(time.Now().UnixNano())\<close>, and \<open>enq k\<close> tells whether the \<open>k\<close>-th call
  of \<open>q.Enqueue\<close> returned a nil error (the queue is drained by another process, so
  the outcome of a call is an input of the harness).
\<close>

type_synonym clock = "nat \<Rightarrow> u64"
type_synonym enq_oracle = "nat \<Rightarrow> bool"

section \<open>main.go: testBatch\<close>

definition symbols_batch :: "string list" where
  "symbols_batch = [''KOHLI'', ''ROHIT'', ''DHONI'']"

definition sides :: "u8 list" where
  "sides = [0, 1]"

definition clients_batch :: "u32 list" where
  "clients_batch = [1001, 1002, 1003]"

text \<open>
  Lines 136-139: \<open>for j := 0; j < len(symbol) && j < 8; j++ { order.Symbol[j] = symbol[j] }\<close>.
  The guard keeps both indices in range.
\<close>

function copy_symbol :: "string \<Rightarrow> nat \<Rightarrow> bytes8 \<Rightarrow> bytes8" where
  "copy_symbol symbol j arr =
     (if j < length symbol \<and> j < 8
      then copy_symbol symbol (j + 1) (arr[j := byte_of_char (symbol ! j)])
      else arr)"
  by pat_completeness auto
termination
  by (relation "measure (\<lambda>(symbol, j, arr). 8 - j)") auto

declare copy_symbol.simps [simp del]

text \<open>
  Lines 125-139: the order of iteration \<open>i\<close> (\<open>1 \<le> i \<le> 100000\<close>, so every index
  expression is in range and no conversion truncates); \<open>t\<close> is the clock reading.
\<close>

definition batch_order :: "nat \<Rightarrow> u64 \<Rightarrow> order8" where
  "batch_order i t =
     \<lparr>OrderID = of_nat i,
      ClientID = clients_batch ! (i mod length clients_batch),
      Symbol = copy_symbol (symbols_batch ! (i mod length symbols_batch)) 0 (replicate 8 0),
      Quantity = of_nat (100 + i mod 900),
      Price = of_nat (50000 + i mod 5000),
      Side = sides ! (i mod 2),
      Timestamp = t,
      Status = 0\<rparr>"

definition maxRetries :: nat where
  "maxRetries = 3"

text \<open>
  Lines 142-156, the retry loop for one order. \<open>k\<close> is the index of the next
  \<open>Enqueue\<close> call, \<open>sleeps\<close> the durations slept so far, in milliseconds
  (\<open>time.Duration(1<<uint(retries)) * time.Millisecond\<close>, after \<open>retries++\<close>).
  The result tells whether the order was enqueued, the final value of \<open>retries\<close>
  (which is also the number of \<open>backpressureCount++\<close>), and the sleeps.
\<close>

function batch_retry :: "enq_oracle \<Rightarrow> nat \<Rightarrow> nat \<Rightarrow> nat list \<Rightarrow> bool \<times> nat \<times> nat list" where
  "batch_retry enq k retries sleeps =
     (if enq k then (True, retries, sleeps)
      else if retries < maxRetries
      then batch_retry enq (k + 1) (retries + 1) (sleeps @ [2 ^ (retries + 1)])
      else (False, retries, sleeps))"
  by pat_completeness auto
termination
  by (relation "measure (\<lambda>(enq, k, retries, sleeps). maxRetries - retries)") auto

declare batch_retry.simps [simp del]

record batch_state =
  successCount :: nat
  backpressureCount :: nat
  calls :: nat
  sent :: "order8 list"
  dropped :: "nat list"

definition batch_init :: batch_state where
  "batch_init = \<lparr>successCount = 0, backpressureCount = 0, calls = 0, sent = [], dropped = []\<rparr>"

text \<open>
  One iteration of the loop of line 124. \<open>calls\<close> counts the \<open>Enqueue\<close> calls made,
  \<open>sent\<close> lists the orders the queue accepted, \<open>dropped\<close> the values of \<open>i\<close>
  logged at line 153. The clock is read once per order (line 131).
\<close>

definition batch_iter :: "enq_oracle \<Rightarrow> clock \<Rightarrow> nat \<Rightarrow> batch_state \<Rightarrow> batch_state" where
  "batch_iter enq clk i s =
     (let order = batch_order i (clk (i - 1));
          (ok, retries, sleeps) = batch_retry enq (calls s) 0 []
      in s\<lparr>successCount := successCount s + (if ok then 1 else 0),
            backpressureCount := backpressureCount s + retries,
            calls := calls s + retries + 1,
            sent := sent s @ (if ok then [order] else []),
            dropped := dropped s @ (if ok then [] else [i])\<rparr>)"

definition batch_total :: nat where
  "batch_total = 100000"

definition testBatch :: "enq_oracle \<Rightarrow> clock \<Rightarrow> batch_state" where
  "testBatch enq clk = fold (batch_iter enq clk) [1..<batch_total + 1] batch_init"

section \<open>main.go: testSingleOrder\<close>

text \<open>
  Lines 84-93. The symbol is the array literal
  \<open>[8]byte{'K', 'O', 'H', 'L', 'I', 0, 0, 0}\<close>; \<open>t\<close> is the clock reading.
\<close>

definition kohli :: bytes8 where
  "kohli = [byte_of_char CHR ''K'', byte_of_char CHR ''O'', byte_of_char CHR ''H'',
            byte_of_char CHR ''L'', byte_of_char CHR ''I'', 0, 0, 0]"

definition single_order :: "u64 \<Rightarrow> order8" where
  "single_order t =
     \<lparr>OrderID = 1, ClientID = 1001, Symbol = kohli, Quantity = 100, Price = 50000,
      Side = 0, Timestamp = t, Status = 0\<rparr>"

section \<open>The producers part_000 and part_001\<close>

text \<open>Go's \<open>%\<close> on \<open>int64\<close> truncates towards zero.\<close>

definition int64_rem :: "i64 \<Rightarrow> i64 \<Rightarrow> i64" where
  "int64_rem a b = word_of_int (sint a smod sint b)"

text \<open>
  The inner loop of both producers (part_000 lines 72-77, part_001 lines 77-84):
  \<open>for { if err := q.Enqueue(order); err == nil { ...; break } }\<close>, in part_001 with
  \<open>runtime.Gosched()\<close> between two attempts. It calls \<open>Enqueue\<close> until a call
  succeeds; \<open>k\<close> is the index of the next call and the result the index after the
  successful one. When no call ever succeeds the loop does not end: \<open>None\<close>.
\<close>

partial_function (option) spin_enqueue :: "enq_oracle \<Rightarrow> nat \<Rightarrow> nat option" where
  "spin_enqueue enq k = (if enq k then Some (k + 1) else spin_enqueue enq (k + 1))"

declare spin_enqueue.simps [code]

text \<open>
  The variables of a producer's \<open>main\<close>, with the bookkeeping of the environment:
  \<open>ncalls\<close> counts the \<open>Enqueue\<close> calls made, \<open>nreads\<close> the clock readings
  taken, \<open>enqueued\<close> lists the orders the queue accepted, oldest first.
\<close>

record 'sym producer =
  count :: i64
  order :: "'sym order"
  atomicCount :: i64
  ncalls :: nat
  nreads :: nat
  enqueued :: "'sym order list"

record 'sym producer0 = "'sym producer" +
  ts :: u64
  updateTick :: i64

subsection \<open>part_000\<close>

text \<open>Lines 25-34 and 59-61; the clock is read once before the loop (line 60).\<close>

definition part000_init :: "clock \<Rightarrow> bytes8 producer0" where
  "part000_init clk =
     \<lparr>count = 0,
      order = \<lparr>OrderID = 0, ClientID = 1001, Symbol = kohli, Quantity = 100, Price = 50000,
               Side = 0, Timestamp = 0, Status = 0\<rparr>,
      atomicCount = 0, ncalls = 0, nreads = 1, enqueued = [],
      ts = clk 0, updateTick = 0\<rparr>"

text \<open>
  Lines 64-79, one iteration of the outer loop. The result is \<open>None\<close> when the inner
  loop never leaves.
\<close>

definition part000_iter :: "enq_oracle \<Rightarrow> clock \<Rightarrow> bytes8 producer0 \<Rightarrow> bytes8 producer0 option" where
  "part000_iter enq clk s =
     (let reread = (int64_rem (updateTick s) 10000 = 0);
          ts' = (if reread then clk (nreads s) else ts s);
          nreads' = (if reread then nreads s + 1 else nreads s);
          count' = count s + 1;
          order' = (order s)\<lparr>OrderID := count', Timestamp := ts'\<rparr>
      in case spin_enqueue enq (ncalls s) of
           None \<Rightarrow> None
         | Some k' \<Rightarrow>
             Some (s\<lparr>count := count', order := order', atomicCount := atomicCount s + 1,
                     ncalls := k', nreads := nreads', enqueued := enqueued s @ [order'],
                     ts := ts', updateTick := updateTick s + 1\<rparr>))"

text \<open>The state after \<open>n\<close> iterations of the outer loop.\<close>

primrec part000_run :: "enq_oracle \<Rightarrow> clock \<Rightarrow> nat \<Rightarrow> bytes8 producer0 option" where
  "part000_run enq clk 0 = Some (part000_init clk)"
| "part000_run enq clk (Suc n) =
     (case part000_run enq clk n of None \<Rightarrow> None | Some s \<Rightarrow> part000_iter enq clk s)"

subsection \<open>part_001\<close>

text \<open>
  Line 73 is \<open>order.Symbol = 0\<close>: in this file \<open>Symbol\<close> has a numeric type, of
  which only the value \<open>0\<close> is ever stored. Line 58 declares the order with its zero
  value.
\<close>

definition basePrice :: u64 where
  "basePrice = 50000"

definition part001_init :: "int producer" where
  "part001_init =
     \<lparr>count = 0,
      order = \<lparr>OrderID = 0, ClientID = 0, Symbol = 0, Quantity = 0, Price = 0,
               Side = 0, Timestamp = 0, Status = 0\<rparr>,
      atomicCount = 0, ncalls = 0, nreads = 0, enqueued = []\<rparr>"

text \<open>
  Lines 61-84. \<open>uint8(count % 2)\<close> keeps the low eight bits of the remainder; the
  clock is read for every order (line 74).
\<close>

definition part001_iter :: "enq_oracle \<Rightarrow> clock \<Rightarrow> int producer \<Rightarrow> int producer option" where
  "part001_iter enq clk s =
     (let count' = count s + 1;
          side = (ucast (int64_rem count' 2) :: u8);
          order' = (order s)\<lparr>OrderID := count', ClientID := 1001, Quantity := 100,
                     Price := basePrice, Side := side, Status := 0, Symbol := 0,
                     Timestamp := clk (nreads s)\<rparr>
      in case spin_enqueue enq (ncalls s) of
           None \<Rightarrow> None
         | Some k' \<Rightarrow>
             Some (s\<lparr>count := count', order := order', atomicCount := atomicCount s + 1,
                     ncalls := k', nreads := nreads s + 1,
                     enqueued := enqueued s @ [order']\<rparr>))"

primrec part001_run :: "enq_oracle \<Rightarrow> clock \<Rightarrow> nat \<Rightarrow> int producer option" where
  "part001_run enq clk 0 = Some part001_init"
| "part001_run enq clk (Suc n) =
     (case part001_run enq clk n of None \<Rightarrow> None | Some s \<Rightarrow> part001_iter enq clk s)"

section \<open>Sample environments\<close>

text \<open>
  Environments used to run the harnesses on concrete inputs: a queue that accepts
  every order at once, one that never accepts, and a clock whose reading steps once.
\<close>

definition always_accepts :: enq_oracle where
  "always_accepts k = True"

definition never_accepts :: enq_oracle where
  "never_accepts k = False"

definition step_clock :: clock where
  "step_clock k = (if k = 0 then 100 else 200)"

section \<open>The ring buffer protocol\<close>

text \<open>
  Modelled from the spec: package \<open>oms/queue\<close> (\<open>CreateQueue\<close>, \<open>OpenQueue\<close>,
  \<open>Enqueue\<close>, the consumer's dequeue, \<open>Depth\<close>, \<open>Capacity\<close>) is imported by every
  file of the repository and is not among its sources. The ring below follows sections
  3 and 4.3 of the specification: a shared tail counter, the consumer's head counter
  and \<open>capacity\<close> slots, each holding a sequence number and a record. Counters are
  natural numbers (they never wrap as values). A ring has at least one slot.
\<close>

record 'a slot =
  seq :: nat
  payload :: 'a

record 'a queue =
  capacity :: nat
  tail :: nat
  head :: nat
  slots :: "'a slot list"

text \<open>
  Modelled from the spec: the ring part of \<open>create\<close> (section 4.2): the payload area
  is zero-filled (\<open>z\<close> is the zero record) and the sequence number of slot \<open>i\<close> is
  \<open>i\<close>; both counters start at 0.
\<close>

definition create_ring :: "nat \<Rightarrow> 'a \<Rightarrow> 'a queue" where
  "create_ring C z =
     \<lparr>capacity = C, tail = 0, head = 0,
      slots = map (\<lambda>i. \<lparr>seq = i, payload = z\<rparr>) [0..<C]\<rparr>"

text \<open>Modelled from the spec: the two results of \<open>enqueue\<close> (sections 4.3 and 6).\<close>

datatype enq_result = Ok | QueueFull

text \<open>
  Modelled from the spec: \<open>enqueue\<close>, section 4.3, steps 1 to 3. Step 1 fetches and
  increments the tail counter, giving the claim position \<open>pos\<close> and the slot
  \<open>pos mod C\<close>; step 2 returns \<open>QueueFull\<close> when the slot's sequence number is not
  \<open>pos\<close>, without retrying; step 3 writes the record and sets the sequence number to
  \<open>pos + 1\<close>.
\<close>

definition enqueue :: "'a \<Rightarrow> 'a queue \<Rightarrow> enq_result \<times> 'a queue" where
  "enqueue x q =
     (let pos = tail q;
          q1 = q\<lparr>tail := pos + 1\<rparr>;
          i = pos mod capacity q
      in if seq (slots q ! i) \<noteq> pos then (QueueFull, q1)
         else (Ok, q1\<lparr>slots := (slots q)[i := \<lparr>seq = pos + 1, payload = x\<rparr>]\<rparr>))"

text \<open>
  Modelled from the spec: \<open>enqueue\<close> with the claim made only when the slot is ready.
  Read on their own, steps 1 and 2 take a position from the tail counter even for a call
  that returns \<open>QueueFull\<close>. The rest of the specification asks for a call that
  claims nothing when it is refused: a call "attempts to claim exactly one slot" and
  either succeeds or "fails with a backpressure signal when the ring is full"
  (section 2), \<open>QueueFull\<close> is "returned when no slot is available for claiming"
  (glossary) and is "always recoverable by retrying later" (section 7), which the
  retry loops of the producers rely on. Here the tail counter advances together with the check of the slot: a
  refused call leaves the queue as it was. The capacity and ordering properties are
  stated for this operation.
\<close>

definition enqueue_ready :: "'a \<Rightarrow> 'a queue \<Rightarrow> enq_result \<times> 'a queue" where
  "enqueue_ready x q =
     (let pos = tail q;
          i = pos mod capacity q
      in if seq (slots q ! i) \<noteq> pos then (QueueFull, q)
         else (Ok, q\<lparr>tail := pos + 1,
                      slots := (slots q)[i := \<lparr>seq = pos + 1, payload = x\<rparr>]\<rparr>))"

text \<open>
  Modelled from the spec: the consumer's \<open>dequeue\<close>, section 4.3, steps 1 to 3. The
  slot of the head position is ready when its sequence number is \<open>head + 1\<close>;
  otherwise the consumer waits (\<open>None\<close>: in a run where nothing else happens it spins
  for ever). When ready the record is copied out, the slot is armed for the next
  wraparound and the head counter advances. A slot armed for the next wraparound is
  owned by the producer that will claim the position one lap ahead (the paragraph on
  the state of a slot: \<open>i + C\<close> for the position \<open>i\<close> just read), so its sequence
  number becomes that position, \<open>head + C\<close>, the only value with which step 2 of
  \<open>enqueue\<close> accepts the slot again. Step 3 writes the value as \<open>head + 1 + C\<close>,
  which is one more than the position the slot is armed for.
\<close>

definition dequeue :: "'a queue \<Rightarrow> ('a \<times> 'a queue) option" where
  "dequeue q =
     (let h = head q;
          i = h mod capacity q;
          s = slots q ! i
      in if seq s \<noteq> h + 1 then None
         else Some (payload s,
                q\<lparr>head := h + 1, slots := (slots q)[i := s\<lparr>seq := h + capacity q\<rparr>]\<rparr>))"

subsection \<open>Runs of whole calls\<close>

text \<open>
  A run of whole calls: one process after the other calls \<open>enqueue\<close> or \<open>dequeue\<close>,
  and the outcomes are listed in order, with the queue at the end. \<open>Wait\<close> is a
  dequeue that found its slot not published; the queue is unchanged and the run goes
  on. The run takes the enqueue operation as a parameter.
\<close>

datatype 'a op = Enq 'a | Deq

datatype 'a outcome = EnqOk | EnqFull | Got 'a | Wait

fun run_ops :: "('a \<Rightarrow> 'a queue \<Rightarrow> enq_result \<times> 'a queue) \<Rightarrow> 'a queue \<Rightarrow> 'a op list
    \<Rightarrow> 'a outcome list \<times> 'a queue" where
  "run_ops enq q [] = ([], q)"
| "run_ops enq q (Enq x # ops) =
     (case enq x q of
        (r, q') \<Rightarrow>
          (case run_ops enq q' ops of
             (rs, qf) \<Rightarrow> ((case r of Ok \<Rightarrow> EnqOk | QueueFull \<Rightarrow> EnqFull) # rs, qf)))"
| "run_ops enq q (Deq # ops) =
     (case dequeue q of
        None \<Rightarrow> (case run_ops enq q ops of (rs, qf) \<Rightarrow> (Wait # rs, qf))
      | Some (x, q') \<Rightarrow> (case run_ops enq q' ops of (rs, qf) \<Rightarrow> (Got x # rs, qf)))"

definition outcomes :: "('a \<Rightarrow> 'a queue \<Rightarrow> enq_result \<times> 'a queue) \<Rightarrow> 'a queue \<Rightarrow> 'a op list
    \<Rightarrow> 'a outcome list" where
  "outcomes enq q ops = fst (run_ops enq q ops)"


text \<open>
  The slots of a ring of capacity \<open>C\<close> in which the first \<open>k\<close> slots are published
  with the records \<open>xs\<close> and the others are still empty (used to state what a
  sequence of enqueues leaves behind).
\<close>

definition filled :: "nat \<Rightarrow> 'a \<Rightarrow> 'a list \<Rightarrow> nat \<Rightarrow> 'a slot list" where
  "filled C z xs k =
     map (\<lambda>i. if i < k then \<lparr>seq = i + 1, payload = xs ! i\<rparr> else \<lparr>seq = i, payload = z\<rparr>) [0..<C]"

text \<open>
  What a run shows from outside: the records whose enqueue succeeded, in the order of
  the calls (which is the order of their claim positions), and the records the consumer
  received, in the order of the dequeues.
\<close>

fun accepted :: "'a op list \<Rightarrow> 'a outcome list \<Rightarrow> 'a list" where
  "accepted (Enq x # ops) (EnqOk # rs) = x # accepted ops rs"
| "accepted (op # ops) (r # rs) = accepted ops rs"
| "accepted ops rs = []"

fun delivered :: "'a outcome list \<Rightarrow> 'a list" where
  "delivered [] = []"
| "delivered (Got x # rs) = x # delivered rs"
| "delivered (r # rs) = delivered rs"

text \<open>
  The state of a ring of capacity \<open>C\<close> with the published and not yet consumed records
  \<open>pend\<close>, each with its claim position, oldest first: every slot either holds one of
  them, with the sequence number one above its position, or is armed (its sequence
  number is a position that maps to the slot).
\<close>

definition ring_inv :: "nat \<Rightarrow> 'a queue \<Rightarrow> (nat \<times> 'a) list \<Rightarrow> bool" where
  "ring_inv C q pend =
     (capacity q = C \<and> length (slots q) = C \<and> head q \<le> tail q
      \<and> sorted_wrt (<) (map fst pend)
      \<and> (\<forall>(p, x) \<in> set pend. head q \<le> p \<and> p < tail q
            \<and> slots q ! (p mod C) = \<lparr>seq = p + 1, payload = x\<rparr>)
      \<and> (\<forall>i < C. seq (slots q ! i) mod C = i
            \<or> (\<exists>(p, x) \<in> set pend. p mod C = i \<and> slots q ! i = \<lparr>seq = p + 1, payload = x\<rparr>)))"

subsection \<open>Interleaved executions\<close>

text \<open>
  Modelled from the spec: the processes of section 5. Any number of producers, each
  named by a number, and the one consumer take steps in any order. A call of
  \<open>enqueue\<close> by a producer is three steps, between which the others may run: the
  claim (steps 1 and 2 of section 4.3: the position is taken from the tail counter when
  the slot is ready, as in \<open>enqueue_ready\<close>), the write of the record into the slot,
  and the publication (the sequence number becomes \<open>pos + 1\<close>). A producer between
  its claim and its publication holds its position and its record.
\<close>

datatype 'a phase = Claimed nat 'a | Written nat 'a




text \<open>
  Modelled from the spec: the state of the whole system: the ring, the producers that
  are inside a call, the records in the order in which their claim positions were
  assigned (\<open>claims ! p\<close> is the record of position \<open>p\<close>), and the records the
  consumer has observed, in the order of observation.
\<close>

record 'a system =
  ring :: "'a queue"
  inflight :: "nat \<Rightarrow> 'a phase option"
  claims :: "'a list"
  observed :: "'a list"


datatype 'a action = Claim nat 'a | Write nat | Publish nat | Consume

text \<open>
  Modelled from the spec: one step of one process. A step that is not possible in the
  state (a claim by a producer that is inside a call, a claim refused with
  \<open>QueueFull\<close>, a write or a publication out of turn, a dequeue on a slot not
  published) leaves the state as it is. The consumer's step is its whole \<open>dequeue\<close>.
  A producer that stops between its claim and its publication is an execution in which
  it takes no further step.
\<close>

fun step :: "'a action \<Rightarrow> 'a system \<Rightarrow> 'a system" where
  "step (Claim pid x) s =
     (let q = ring s; pos = tail q
      in if inflight s pid \<noteq> None then s
         else if seq (slots q ! (pos mod capacity q)) \<noteq> pos then s
         else s\<lparr>ring := q\<lparr>tail := pos + 1\<rparr>,
                 inflight := (inflight s)(pid := Some (Claimed pos x)),
                 claims := claims s @ [x]\<rparr>)"
| "step (Write pid) s =
     (case inflight s pid of
        Some (Claimed pos x) \<Rightarrow>
          (let q = ring s; i = pos mod capacity q
           in s\<lparr>ring := q\<lparr>slots := (slots q)[i := (slots q ! i)\<lparr>payload := x\<rparr>]\<rparr>,
                 inflight := (inflight s)(pid := Some (Written pos x))\<rparr>)
      | _ \<Rightarrow> s)"
| "step (Publish pid) s =
     (case inflight s pid of
        Some (Written pos x) \<Rightarrow>
          (let q = ring s; i = pos mod capacity q
           in s\<lparr>ring := q\<lparr>slots := (slots q)[i := (slots q ! i)\<lparr>seq := pos + 1\<rparr>]\<rparr>,
                 inflight := (inflight s)(pid := None)\<rparr>)
      | _ \<Rightarrow> s)"
| "step Consume s =
     (case dequeue (ring s) of
        None \<Rightarrow> s
      | Some (x, q') \<Rightarrow> s\<lparr>ring := q', observed := observed s @ [x]\<rparr>)"

definition exec :: "'a action list \<Rightarrow> 'a system \<Rightarrow> 'a system" where
  "exec acts s = fold step acts s"


section \<open>The order record codec\<close>

text \<open>
  Modelled from the spec: \<open>encode\<close> and \<open>decode\<close> (section 4.1) are part of package
  \<open>oms/queue\<close>, which is not among the sources. The layout is the table of section 3
  read as the specification asks: the fields in the order of the table, with the widths
  given there and no padding, 8 + 4 + 4 + 8 + 1 + 1 + 8 + 8 = 42 bytes. The
  specification leaves the byte order to the implementation; the integers are written
  little-endian here.
\<close>

text \<open>
  Modelled from the spec: the little-endian bytes of an integer field of \<open>n\<close> bytes,
  and the integer a list of bytes stands for.
\<close>

fun bytes_of_nat :: "nat \<Rightarrow> nat \<Rightarrow> u8 list" where
  "bytes_of_nat 0 x = []"
| "bytes_of_nat (Suc n) x = of_nat (x mod 256) # bytes_of_nat n (x div 256)"

fun nat_of_bytes :: "u8 list \<Rightarrow> nat" where
  "nat_of_bytes [] = 0"
| "nat_of_bytes (b # bs) = unat b + 256 * nat_of_bytes bs"

text \<open>Modelled from the spec: an integer field of the record as bytes, and back.\<close>

definition le_bytes :: "nat \<Rightarrow> 'a::len word \<Rightarrow> u8 list" where
  "le_bytes n w = bytes_of_nat n (unat w)"

definition le_word :: "u8 list \<Rightarrow> 'a::len word" where
  "le_word bs = of_nat (nat_of_bytes bs)"

text \<open>Modelled from the spec: the fixed size of an encoded record.\<close>

definition record_size :: nat where
  "record_size = 42"

text \<open>Modelled from the spec: \<open>encode\<close>, the fields one after the other.\<close>

definition encode :: "order8 \<Rightarrow> u8 list" where
  "encode ord =
     le_bytes 8 (OrderID ord) @ le_bytes 4 (ClientID ord) @ le_bytes 4 (Quantity ord)
     @ le_bytes 8 (Price ord) @ [Side ord] @ [Status ord] @ Symbol ord
     @ le_bytes 8 (Timestamp ord)"

text \<open>
  Modelled from the spec: input of the wrong size is a programming error, not a
  recoverable one (section 4.1): \<open>None\<close>.
\<close>

definition decode :: "u8 list \<Rightarrow> order8 option" where
  "decode bs =
     (if length bs \<noteq> record_size then None
      else Some \<lparr>OrderID = le_word (take 8 bs),
                 ClientID = le_word (take 4 (drop 8 bs)),
                 Symbol = take 8 (drop 26 bs),
                 Quantity = le_word (take 4 (drop 12 bs)),
                 Price = le_word (take 8 (drop 16 bs)),
                 Side = bs ! 24,
                 Timestamp = le_word (take 8 (drop 34 bs)),
                 Status = bs ! 25\<rparr>)"

text \<open>
  Modelled from the spec: a valid order (section 3) has a symbol of exactly eight bytes
  and a side that is BUY (0) or SELL (1); the status enumeration is left open by the
  specification.
\<close>

definition valid_order :: "order8 \<Rightarrow> bool" where
  "valid_order ord = (length (Symbol ord) = 8 \<and> (Side ord = 0 \<or> Side ord = 1))"

section \<open>Opening a queue file\<close>

text \<open>
  Modelled from the spec: \<open>open\<close> (sections 4.2, 6 and 7) is \<open>queue.OpenQueue\<close> of the
  absent package. A file is seen through its header (magic, version, capacity, slot
  size; a file not yet initialised reads as zeros), the file system is a map from paths
  to files, and the opener compares the header with the values it was built for.
\<close>

text \<open>Modelled from the spec: the header of a queue file (section 3).\<close>

record region_file =
  file_magic :: nat
  file_version :: nat
  file_capacity :: nat
  file_slot_size :: nat

text \<open>Modelled from the spec: the header values an opener was built for (section 2).\<close>

record opener =
  want_magic :: nat
  want_version :: nat
  want_capacity :: nat
  want_slot_size :: nat

text \<open>Modelled from the spec: the errors of \<open>open\<close> (sections 6 and 7).\<close>

datatype open_error = NotFound | FormatMismatch

text \<open>
  Modelled from the spec: the validation of the header at open time: a recognised magic
  and version, and the capacity and slot size the opener expects.
\<close>

definition header_matches :: "opener \<Rightarrow> region_file \<Rightarrow> bool" where
  "header_matches w f =
     (file_magic f = want_magic w \<and> file_version f = want_version w
      \<and> file_capacity f = want_capacity w \<and> file_slot_size f = want_slot_size w)"

text \<open>
  Modelled from the spec: \<open>open(path)\<close>: \<open>NotFound\<close> when there is no file at the
  path, \<open>FormatMismatch\<close> when the header of the file is not the expected one.
\<close>

definition open_region :: "opener \<Rightarrow> (string \<rightharpoonup> region_file) \<Rightarrow> string \<Rightarrow> open_error + region_file" where
  "open_region w fs path =
     (case fs path of
        None \<Rightarrow> Inl NotFound
      | Some f \<Rightarrow> if header_matches w f then Inr f else Inl FormatMismatch)"

text \<open>Sample inputs: an opener, a file it accepts and a file still zero-filled.\<close>

definition sample_opener :: opener where
  "sample_opener = \<lparr>want_magic = 1330467665, want_version = 1, want_capacity = 65536,
     want_slot_size = 50\<rparr>"

definition good_file :: region_file where
  "good_file = \<lparr>file_magic = 1330467665, file_version = 1, file_capacity = 65536,
     file_slot_size = 50\<rparr>"

definition blank_file :: region_file where
  "blank_file = \<lparr>file_magic = 0, file_version = 0, file_capacity = 0, file_slot_size = 0\<rparr>"

definition sample_fs :: "string \<rightharpoonup> region_file" where
  "sample_fs = [''/tmp/sex'' \<mapsto> good_file, ''/tmp/sex_status'' \<mapsto> blank_file]"

section \<open>main.go: testInit\<close>

text \<open>
  The calls a harness makes into package \<open>oms/queue\<close> are recorded as events: the
  function called and the arguments passed. \<open>Fatal\<close> is \<open>log.Fatalf\<close>, which ends
  the process without running the deferred calls.
\<close>

datatype arg = Str string | Num nat

datatype event = Call string "arg list" | Fatal

definition queueFilePath :: string where
  "queueFilePath = ''/tmp/sex''"

text \<open>
  Lines 50-74. \<open>ok k\<close> tells whether the \<open>k\<close>-th call of \<open>queue.CreateQueue\<close>
  returns a nil error. The deferred \<open>Close\<close> calls run last, in reverse order.
\<close>

definition testInit :: "(nat \<Rightarrow> bool) \<Rightarrow> event list" where
  "testInit ok =
     Call ''queue.CreateQueue'' [Str queueFilePath] #
     (if \<not> ok 0 then [Fatal]
      else [Call ''q.Capacity'' [], Call ''q.Depth'' [],
            Call ''queue.CreateQueue'' [Str (queueFilePath @ ''_status'')]]
           @ (if \<not> ok 1 then [Fatal]
              else [Call ''statusQ.Close'' [], Call ''q.Close'' []]))"

text \<open>The argument lists of the calls of \<open>queue.CreateQueue\<close> in a trace.\<close>

fun create_calls :: "event list \<Rightarrow> arg list list" where
  "create_calls [] = []"
| "create_calls (Call f as # es) =
     (if f = ''queue.CreateQueue'' then as # create_calls es else create_calls es)"
| "create_calls (Fatal # es) = create_calls es"

definition create_succeeds :: "nat \<Rightarrow> bool" where
  "create_succeeds k = True"

chapter \<open>Properties\<close>

section \<open>testBatch: the retry policy\<close>







section \<open>The spinning enqueue loop of the producers\<close>


lemma spin_enqueue_eventually:
  "enq (k + d) \<Longrightarrow> \<exists>k'. spin_enqueue enq k = Some k' \<and> k < k' \<and> k' \<le> k + d + 1"
proof (induction d arbitrary: k)
  case 0
  then show ?case by (simp add: spin_enqueue.simps [of enq k])
next
  case (Suc d)
  show ?case
  proof (cases "enq k")
    case True
    then show ?thesis by (simp add: spin_enqueue.simps [of enq k])
  next
    case False
    from Suc.prems have "enq (k + 1 + d)" by simp
    from Suc.IH [OF this] obtain k' where
      k': "spin_enqueue enq (k + 1) = Some k'" "k + 1 < k'" "k' \<le> k + 1 + d + 1" by blast
    from False have "spin_enqueue enq k = spin_enqueue enq (k + 1)"
      by (simp add: spin_enqueue.simps [of enq k])
    with k' show ?thesis by simp
  qed
qed



lemma part000_iter_Some:
  assumes "part000_iter enq clk s = Some s'"
  shows "count s' = count s + 1"
    and "updateTick s' = updateTick s + 1"
    and "enqueued s' = enqueued s @ [order s']"
    and "order s' = (order s)\<lparr>OrderID := count s + 1, Timestamp := ts s'\<rparr>"
    and "ts s' = (if int64_rem (updateTick s) 10000 = 0 then clk (nreads s) else ts s)"
    and "nreads s' = (if int64_rem (updateTick s) 10000 = 0 then nreads s + 1 else nreads s)"
    and "spin_enqueue enq (ncalls s) = Some (ncalls s')"
  using assms by (auto simp: part000_iter_def Let_def split: option.splits)

lemma part000_iter_total:
  "spin_enqueue enq (ncalls s) = Some k' \<Longrightarrow> \<exists>s'. part000_iter enq clk s = Some s'"
  by (simp add: part000_iter_def Let_def)

lemma part000_run_total:
  assumes live: "\<forall>k. \<exists>d. enq (k + d)"
  shows "\<exists>s. part000_run enq clk n = Some s"
proof (induction n)
  case 0
  show ?case by simp
next
  case (Suc n)
  then obtain s where s: "part000_run enq clk n = Some s" by blast
  from live obtain d where "enq (ncalls s + d)" by blast
  from spin_enqueue_eventually [of enq "ncalls s" d, OF this]
  obtain k' where "spin_enqueue enq (ncalls s) = Some k'"
    by blast
  from part000_iter_total [OF this] s show ?case by simp
qed

lemma part000_run_counters:
  "part000_run enq clk n = Some s \<Longrightarrow>
     count s = of_nat n \<and> updateTick s = of_nat n
     \<and> map OrderID (enqueued s) = map (\<lambda>i. of_nat (Suc i)) [0..<n]
     \<and> map Symbol (enqueued s) = replicate n kohli \<and> Symbol (order s) = kohli"
proof (induction n arbitrary: s)
  case 0
  then show ?case by (auto simp: part000_init_def)
next
  case (Suc n)
  from Suc.prems obtain s0 where s0: "part000_run enq clk n = Some s0"
    and it: "part000_iter enq clk s0 = Some s"
    by (auto split: option.splits)
  note ih = Suc.IH [OF s0]
  note st = part000_iter_Some [OF it]
  from ih st(1) have c: "count s = of_nat (Suc n)" by simp
  from ih st(2) have u: "updateTick s = of_nat (Suc n)" by simp
  from ih st(4) have o: "OrderID (order s) = of_nat (Suc n)" "Symbol (order s) = kohli" by simp_all
  from ih st(3) o have ids: "map OrderID (enqueued s) = map (\<lambda>i. of_nat (Suc i)) [0..<Suc n]"
    by simp
  from ih st(3) o have sy: "map Symbol (enqueued s) = replicate (Suc n) kohli"
    by (simp add: replicate_append_same)
  from c u ids sy o show ?case by blast
qed

lemma sint_of_nat_small:
  "n < 2 ^ 63 \<Longrightarrow> sint (of_nat n :: 64 word) = int n"
proof -
  assume n: "n < 2 ^ 63"
  then have "int n < 2 ^ 63" by simp
  then have "signed_take_bit 63 (int n) = int n"
    by (simp add: signed_take_bit_int_eq_self)
  then show ?thesis by (simp add: signed_of_nat)
qed

lemma smod_nonneg:
  "int n smod 10000 = int (n mod 10000)"
  by (cases "n = 0") (simp_all add: signed_modulo_int_def zmod_int)

lemma int64_rem_tick:
  assumes "n < 2 ^ 63"
  shows "(int64_rem (of_nat n) 10000 = 0) = (n mod 10000 = 0)"
proof -
  have "int64_rem (of_nat n) 10000 = (of_nat (n mod 10000) :: 64 word)"
    by (simp add: int64_rem_def sint_of_nat_small [OF assms] smod_nonneg)
  moreover have "(of_nat (n mod 10000) :: 64 word) = 0 \<longleftrightarrow> n mod 10000 = 0"
  proof
    assume a: "(of_nat (n mod 10000) :: 64 word) = 0"
    have "unat (of_nat (n mod 10000) :: 64 word) = (n mod 10000) mod 2 ^ 64"
      by (simp add: unat_of_nat)
    with a have z: "(n mod 10000) mod 2 ^ 64 = 0" by simp
    have "n mod 10000 < 10000" by simp
    also have "(10000::nat) < 2 ^ 64" by simp
    finally have "n mod 10000 < 2 ^ 64" .
    with z show "n mod 10000 = 0" by (simp only: mod_less)
  qed simp
  ultimately show ?thesis by simp
qed

lemma part000_run_reads:
  "n \<le> 2 ^ 63 \<Longrightarrow> part000_run enq clk n = Some s \<Longrightarrow>
     nreads s = (if n = 0 then 1 else 2 + (n - 1) div 10000)
     \<and> ts s = clk (nreads s - 1)
     \<and> map Timestamp (enqueued s) = map (\<lambda>i. clk (1 + i div 10000)) [0..<n]"
proof (induction n arbitrary: s)
  case 0
  then show ?case by (auto simp: part000_init_def)
next
  case (Suc n)
  from Suc.prems obtain s0 where s0: "part000_run enq clk n = Some s0"
    and it: "part000_iter enq clk s0 = Some s"
    by (auto split: option.splits)
  from Suc.prems have n: "n < 2 ^ 63" "n \<le> 2 ^ 63" by simp_all
  note ih = Suc.IH [OF n(2) s0]
  from ih have ih1: "nreads s0 = (if n = 0 then 1 else 2 + (n - 1) div 10000)" by blast
  from ih have ih2: "ts s0 = clk (nreads s0 - 1)" by blast
  from ih have ih3: "map Timestamp (enqueued s0) = map (\<lambda>i. clk (1 + i div 10000)) [0..<n]"
    by blast
  note st = part000_iter_Some [OF it]
  from part000_run_counters [OF s0] have "updateTick s0 = of_nat n" by blast
  with int64_rem_tick [OF n(1)]
  have tick: "(int64_rem (updateTick s0) 10000 = 0) = (n mod 10000 = 0)" by simp
  have dv: "0 < n \<Longrightarrow> n div 10000 = (if n mod 10000 = 0 then Suc ((n - 1) div 10000) else (n - 1) div 10000)"
    using div_Suc [of "n - 1" 10000] by simp
  have rd: "nreads s = 2 + n div 10000"
  proof (cases "n = 0")
    case True
    with st(6) tick ih1 show ?thesis by simp
  next
    case False
    then have "0 < n" by simp
    from dv [OF this] st(6) tick ih1 False show ?thesis by (simp split: if_splits)
  qed
  have tsv: "ts s = clk (1 + n div 10000)"
  proof (cases "n mod 10000 = 0")
    case True
    with st(5) tick have "ts s = clk (nreads s0)" by simp
    moreover from True st(6) tick have "nreads s = nreads s0 + 1" by simp
    ultimately show ?thesis using rd by simp
  next
    case False
    with st(5) tick have a: "ts s = ts s0" by simp
    from False st(6) tick have "nreads s = nreads s0" by simp
    with rd have "nreads s0 - 1 = 1 + n div 10000" by simp
    with a ih2 show ?thesis by simp
  qed
  from st(4) have "Timestamp (order s) = ts s" by simp
  with st(3) ih3 tsv
  have "map Timestamp (enqueued s) = map (\<lambda>i. clk (1 + i div 10000)) [0..<Suc n]" by simp
  moreover from rd have "nreads s = (if Suc n = 0 then 1 else 2 + (Suc n - 1) div 10000)" by simp
  moreover from rd tsv have "ts s = clk (nreads s - 1)" by simp
  ultimately show ?case by blast
qed

lemma part000_run_sorted:
  assumes mono: "\<forall>a b. a \<le> b \<longrightarrow> clk a \<le> clk b"
  shows "part000_run enq clk n = Some s \<Longrightarrow>
     1 \<le> nreads s \<and> ts s = clk (nreads s - 1)
     \<and> sorted (map Timestamp (enqueued s))
     \<and> (\<forall>x \<in> set (enqueued s). Timestamp x \<le> ts s)"
proof (induction n arbitrary: s)
  case 0
  then show ?case by (auto simp: part000_init_def)
next
  case (Suc n)
  from Suc.prems obtain s0 where s0: "part000_run enq clk n = Some s0"
    and it: "part000_iter enq clk s0 = Some s"
    by (auto split: option.splits)
  note ih = Suc.IH [OF s0]
  from ih have ih1: "1 \<le> nreads s0" by blast
  from ih have ih2: "ts s0 = clk (nreads s0 - 1)" by blast
  from ih have ih3: "sorted (map Timestamp (enqueued s0))" by blast
  from ih have ih4: "\<forall>x \<in> set (enqueued s0). Timestamp x \<le> ts s0" by blast
  note st = part000_iter_Some [OF it]
  from mono have step: "clk (nreads s0 - 1) \<le> clk (nreads s0)" by simp
  from st(6) ih1 have r1: "1 \<le> nreads s" by (simp split: if_splits)
  from st(5) st(6) ih1 ih2 have r2: "ts s = clk (nreads s - 1)" by (simp split: if_splits)
  from st(5) ih2 step have up: "ts s0 \<le> ts s" by (simp split: if_splits)
  from st(4) have to: "Timestamp (order s) = ts s" by simp
  from ih4 up have le: "\<forall>x \<in> set (enqueued s0). Timestamp x \<le> ts s" by fastforce
  from st(3) ih3 le to have r3: "sorted (map Timestamp (enqueued s))"
    by (simp add: sorted_append)
  from st(3) le to have r4: "\<forall>x \<in> set (enqueued s). Timestamp x \<le> ts s" by simp
  from r1 r2 r3 r4 show ?case by blast
qed

lemma part000_run_length:
  "part000_run enq clk n = Some s \<Longrightarrow> length (enqueued s) = n"
proof -
  assume "part000_run enq clk n = Some s"
  from part000_run_counters [OF this]
  have "map OrderID (enqueued s) = map (\<lambda>i. of_nat (Suc i)) [0..<n]" by blast
  then have "length (map OrderID (enqueued s)) = length (map (\<lambda>i. of_nat (Suc i) :: u64) [0..<n])"
    by (simp only:)
  then show ?thesis by simp
qed

lemma part000_run_first_block:
  "part000_run enq clk n = Some s \<Longrightarrow>
     take 10000 (map Timestamp (enqueued s)) = replicate (min n 10000) (clk 1)"
proof (induction n arbitrary: s)
  case 0
  then show ?case by (auto simp: part000_init_def)
next
  case (Suc n)
  from Suc.prems obtain s0 where s0: "part000_run enq clk n = Some s0"
    and it: "part000_iter enq clk s0 = Some s"
    by (auto split: option.splits)
  note ih = Suc.IH [OF s0]
  note st = part000_iter_Some [OF it]
  note len = part000_run_length [OF s0]
  show ?case
  proof (cases "n < 10000")
    case True
    then have "Suc n \<le> 2 ^ 63" by simp
    from part000_run_reads [OF this Suc.prems]
    have "map Timestamp (enqueued s) = map (\<lambda>i. clk (1 + i div 10000)) [0..<Suc n]" by blast
    moreover have "map (\<lambda>i. clk (1 + i div 10000)) [0..<Suc n] = replicate (Suc n) (clk 1)"
    proof -
      have "map (\<lambda>i. clk (1 + i div 10000)) [0..<Suc n] = map (\<lambda>i. clk 1) [0..<Suc n]"
        by (rule map_cong) (use True in auto)
      also have "\<dots> = replicate (length [0..<Suc n]) (clk 1)"
        by (rule map_replicate_const)
      finally show ?thesis by (simp del: upt_Suc replicate_Suc)
    qed
    moreover from True have "min (Suc n) 10000 = Suc n" by simp
    moreover from True have "take 10000 (replicate (Suc n) (clk 1)) = replicate (Suc n) (clk 1)"
      by simp
    ultimately show ?thesis by simp
  next
    case False
    with len st(3) have "take 10000 (map Timestamp (enqueued s)) = take 10000 (map Timestamp (enqueued s0))"
      by simp
    with ih False show ?thesis by simp
  qed
qed

text \<open>
  Claim C10. In part_000 the clock is read in an iteration of the outer loop only when
  \<open>updateTick % 10000 == 0\<close>; otherwise the order carries the previous reading. So
  the first 10000 orders all carry one reading, and (up to \<open>2 ^ 63\<close> iterations, while
  \<open>updateTick\<close> has not wrapped) order \<open>i\<close> carries the reading taken at iteration
  \<open>10000 * (i div 10000)\<close>. With a clock whose readings never decrease the
  timestamps of the enqueued orders are non-decreasing, and from the second order on
  they are not strictly increasing. The statement is for a queue that always accepts an
  order eventually, so that the producer does complete \<open>n\<close> iterations.
\<close>

theorem part000_timestamps:
  assumes live: "\<forall>k. \<exists>d. enq (k + d)"
  shows "\<exists>s s'. part000_run enq clk n = Some s \<and> part000_iter enq clk s = Some s'
     \<and> nreads s' = (if int64_rem (updateTick s) 10000 = 0 then nreads s + 1 else nreads s)
     \<and> ts s' = (if int64_rem (updateTick s) 10000 = 0 then clk (nreads s) else ts s)
     \<and> take 10000 (map Timestamp (enqueued s)) = replicate (min n 10000) (clk 1)
     \<and> (n \<le> 2 ^ 63 \<longrightarrow> map Timestamp (enqueued s) = map (\<lambda>i. clk (1 + i div 10000)) [0..<n])
     \<and> ((\<forall>a b. a \<le> b \<longrightarrow> clk a \<le> clk b) \<longrightarrow> sorted (map Timestamp (enqueued s)))
     \<and> (2 \<le> n \<longrightarrow> \<not> sorted_wrt (<) (map Timestamp (enqueued s)))"
proof -
  from part000_run_total [OF live, of clk "Suc n"]
  obtain s s' where s: "part000_run enq clk n = Some s" and it: "part000_iter enq clk s = Some s'"
    by (auto split: option.splits)
  note st = part000_iter_Some [OF it]
  note blk = part000_run_first_block [OF s]
  have closed: "n \<le> 2 ^ 63 \<longrightarrow> map Timestamp (enqueued s) = map (\<lambda>i. clk (1 + i div 10000)) [0..<n]"
    using part000_run_reads [OF _ s] by blast
  have srt: "(\<forall>a b. a \<le> b \<longrightarrow> clk a \<le> clk b) \<longrightarrow> sorted (map Timestamp (enqueued s))"
    using part000_run_sorted [OF _ s] by blast
  have nstrict: "2 \<le> n \<longrightarrow> \<not> sorted_wrt (<) (map Timestamp (enqueued s))"
  proof
    assume n2: "2 \<le> n"
    let ?e = "map Timestamp (enqueued s)"
    from part000_run_length [OF s] have len: "length ?e = n" by simp
    from n2 have "take 10000 ?e ! 0 = clk 1" "take 10000 ?e ! 1 = clk 1"
      by (simp_all only: blk) simp_all
    with n2 len have eq: "?e ! 0 = ?e ! 1" by simp
    show "\<not> sorted_wrt (<) ?e"
    proof
      assume "sorted_wrt (<) ?e"
      with n2 len have "?e ! 0 < ?e ! 1" by (simp add: sorted_wrt_iff_nth_less)
      with eq show False by simp
    qed
  qed
  from s it st(6) st(5) blk closed srt nstrict show ?thesis by blast
qed

lemma always_accepts_live: "\<forall>k. \<exists>d. always_accepts (k + d)"
  by (simp add: always_accepts_def)

lemma step_clock_mono: "\<forall>a b. a \<le> b \<longrightarrow> step_clock a \<le> step_clock b"
  by (simp add: step_clock_def)

theorem part000_timestamps_witness:
  "\<exists>s. part000_run always_accepts step_clock 2 = Some s
     \<and> map Timestamp (enqueued s) = [200, 200]
     \<and> sorted (map Timestamp (enqueued s))
     \<and> \<not> sorted_wrt (<) (map Timestamp (enqueued s))"
proof -
  note th = part000_timestamps [of always_accepts step_clock 2, OF always_accepts_live]
  from th obtain s s' where big:
    "part000_run always_accepts step_clock 2 = Some s \<and> part000_iter always_accepts step_clock s = Some s'
     \<and> nreads s' = (if int64_rem (updateTick s) 10000 = 0 then nreads s + 1 else nreads s)
     \<and> ts s' = (if int64_rem (updateTick s) 10000 = 0 then step_clock (nreads s) else ts s)
     \<and> take 10000 (map Timestamp (enqueued s)) = replicate (min 2 10000) (step_clock 1)
     \<and> (2 \<le> (2::nat) ^ 63 \<longrightarrow> map Timestamp (enqueued s) = map (\<lambda>i. step_clock (1 + i div 10000)) [0..<2])
     \<and> ((\<forall>a b. a \<le> b \<longrightarrow> step_clock a \<le> step_clock b) \<longrightarrow> sorted (map Timestamp (enqueued s)))
     \<and> (2 \<le> (2::nat) \<longrightarrow> \<not> sorted_wrt (<) (map Timestamp (enqueued s)))"
    by (elim exE)
  from big have s: "part000_run always_accepts step_clock 2 = Some s" by (elim conjE)
  from big have t: "2 \<le> (2::nat) ^ 63 \<longrightarrow> map Timestamp (enqueued s) = map (\<lambda>i. step_clock (1 + i div 10000)) [0..<2]"
    by (elim conjE)
  from big have srt: "(\<forall>a b. a \<le> b \<longrightarrow> step_clock a \<le> step_clock b) \<longrightarrow> sorted (map Timestamp (enqueued s))"
    by (elim conjE)
  from big have ns: "2 \<le> (2::nat) \<longrightarrow> \<not> sorted_wrt (<) (map Timestamp (enqueued s))"
    by (elim conjE)
  have "(2::nat) \<le> 2 ^ 63" by simp
  with t have t': "map Timestamp (enqueued s) = map (\<lambda>i. step_clock (1 + i div 10000)) [0..<2]"
    by (rule mp)
  have u: "[0..<2] = [0, Suc 0]" by (simp add: upt_rec)
  have c: "step_clock (1 + 0 div 10000) = 200" "step_clock (1 + Suc 0 div 10000) = 200"
    by (simp_all add: step_clock_def)
  from t' have v: "map Timestamp (enqueued s) = [200, 200]" by (simp only: u list.map c)
  from srt step_clock_mono have s1: "sorted (map Timestamp (enqueued s))" by (rule mp)
  have "(2::nat) \<le> 2" by simp
  with ns have s2: "\<not> sorted_wrt (<) (map Timestamp (enqueued s))" by (rule mp)
  from s v s1 s2 show ?thesis by (intro exI [of _ s] conjI)
qed

section \<open>The order ids of the producers\<close>

lemma part001_iter_Some:
  assumes "part001_iter enq clk s = Some s'"
  shows "count s' = count s + 1"
    and "enqueued s' = enqueued s @ [order s']"
    and "OrderID (order s') = count s + 1"
    and "Symbol (order s') = 0"
    and "spin_enqueue enq (ncalls s) = Some (ncalls s')"
  using assms by (auto simp: part001_iter_def Let_def split: option.splits)

lemma part001_iter_total:
  "spin_enqueue enq (ncalls s) = Some k' \<Longrightarrow> \<exists>s'. part001_iter enq clk s = Some s'"
  by (simp add: part001_iter_def Let_def)

lemma part001_run_total:
  assumes live: "\<forall>k. \<exists>d. enq (k + d)"
  shows "\<exists>s. part001_run enq clk n = Some s"
proof (induction n)
  case 0
  show ?case by simp
next
  case (Suc n)
  then obtain s where s: "part001_run enq clk n = Some s" by blast
  from live obtain d where "enq (ncalls s + d)" by blast
  from spin_enqueue_eventually [of enq "ncalls s" d, OF this]
  obtain k' where "spin_enqueue enq (ncalls s) = Some k'"
    by blast
  from part001_iter_total [OF this] s show ?case by simp
qed

lemma part001_run_counters:
  "part001_run enq clk n = Some s \<Longrightarrow>
     count s = of_nat n
     \<and> map OrderID (enqueued s) = map (\<lambda>i. of_nat (Suc i)) [0..<n]
     \<and> map Symbol (enqueued s) = replicate n 0"
proof (induction n arbitrary: s)
  case 0
  then show ?case by (auto simp: part001_init_def)
next
  case (Suc n)
  from Suc.prems obtain s0 where s0: "part001_run enq clk n = Some s0"
    and it: "part001_iter enq clk s0 = Some s"
    by (auto split: option.splits)
  note ih = Suc.IH [OF s0]
  note st = part001_iter_Some [OF it]
  from ih st(1) have c: "count s = of_nat (Suc n)" by simp
  from ih st(3) have o: "OrderID (order s) = of_nat (Suc n)" by simp
  from ih st(2) o have ids: "map OrderID (enqueued s) = map (\<lambda>i. of_nat (Suc i)) [0..<Suc n]"
    by simp
  from ih st(2) st(4) have sy: "map Symbol (enqueued s) = replicate (Suc n) 0"
    by (simp add: replicate_append_same)
  from c ids sy show ?case by blast
qed

lemma ids_strictly_increasing:
  assumes "n < 2 ^ 64"
  shows "sorted_wrt (<) (map (\<lambda>i. of_nat (Suc i) :: u64) [0..<n])"
proof -
  have "of_nat (Suc i) < (of_nat (Suc j) :: u64)" if "i < j" "j < n" for i j
  proof -
    from that assms have "Suc i < 2 ^ 64" "Suc j < 2 ^ 64" by simp_all
    then have "take_bit 64 (Suc i) = Suc i" "take_bit 64 (Suc j) = Suc j"
      by (simp_all only: take_bit_nat_eq_self)
    with that(1) show ?thesis by (simp only: of_nat_word_less_iff len_bit0 len_num1) simp
  qed
  then show ?thesis by (simp add: sorted_wrt_iff_nth_less del: upt_Suc)
qed

lemma ids_upt: "map (\<lambda>i. of_nat (Suc i) :: u64) [0..<n] = map of_nat [1..<Suc n]"
  by (induction n) simp_all

lemma batch_iter_sent:
  "sent (batch_iter enq clk i s) = sent s
   \<or> sent (batch_iter enq clk i s) = sent s @ [batch_order i (clk (i - 1))]"
  by (cases "batch_retry enq (calls s) 0 []") (simp add: batch_iter_def)

lemma batch_sent_ids:
  "\<exists>js. map OrderID (sent (fold (batch_iter enq clk) [m..<b] s))
        = map OrderID (sent s) @ map of_nat js
      \<and> sorted_wrt (<) js \<and> (\<forall>j \<in> set js. m \<le> j \<and> j < b)"
proof (induction b)
  case 0
  show ?case by (intro exI [of _ "[]"]) simp
next
  case (Suc b)
  show ?case
  proof (cases "m \<le> b")
    case False
    then show ?thesis by (intro exI [of _ "[]"]) simp
  next
    case True
    let ?s = "fold (batch_iter enq clk) [m..<b] s"
    from Suc obtain js where js: "map OrderID (sent ?s) = map OrderID (sent s) @ map of_nat js"
      "sorted_wrt (<) js" "\<forall>j \<in> set js. m \<le> j \<and> j < b" by blast
    from True have f: "fold (batch_iter enq clk) [m..<Suc b] s = batch_iter enq clk b ?s"
      by simp
    from batch_iter_sent [of enq clk b ?s] show ?thesis
    proof
      assume "sent (batch_iter enq clk b ?s) = sent ?s"
      with f js show ?thesis by (intro exI [of _ js]) auto
    next
      assume a: "sent (batch_iter enq clk b ?s) = sent ?s @ [batch_order b (clk (b - 1))]"
      have "OrderID (batch_order b (clk (b - 1))) = of_nat b" by (simp add: batch_order_def)
      with a f js True show ?thesis
        by (intro exI [of _ "js @ [b]"]) (auto simp: sorted_wrt_append)
    qed
  qed
qed

lemma of_nat_strictly_sorted:
  assumes "sorted_wrt (<) js" and "\<forall>j \<in> set js. j < 2 ^ 64"
  shows "sorted_wrt (<) (map of_nat js :: u64 list)"
proof -
  have "of_nat i < (of_nat j :: u64)" if "i \<in> set js" "j \<in> set js" "i < j" for i j
  proof -
    from that assms(2) have "i < 2 ^ 64" "j < 2 ^ 64" by simp_all
    then have "take_bit 64 i = i" "take_bit 64 j = j"
      by (simp_all only: take_bit_nat_eq_self)
    with that(3) show ?thesis by (simp only: of_nat_word_less_iff len_bit0 len_num1) simp
  qed
  with assms(1) show ?thesis
    by (simp add: sorted_wrt_map) (rule sorted_wrt_mono_rel, auto)
qed

lemma testBatch_ids_increasing:
  "sorted_wrt (<) (map OrderID (sent (testBatch enq clk)))"
proof -
  from batch_sent_ids [of enq clk 1 "batch_total + 1" batch_init]
  obtain js where js: "map OrderID (sent (testBatch enq clk)) = map of_nat js"
    "sorted_wrt (<) js" "\<forall>j \<in> set js. 1 \<le> j \<and> j < batch_total + 1"
    by (auto simp: testBatch_def batch_init_def)
  have "\<forall>j \<in> set js. j < 2 ^ 64"
  proof
    fix j assume "j \<in> set js"
    with js(3) have "j < 100001" by (simp add: batch_total_def)
    also have "(100001::nat) < 2 ^ 64" by simp
    finally show "j < 2 ^ 64" .
  qed
  from of_nat_strictly_sorted [OF js(2) this] js(1) show ?thesis by simp
qed

text \<open>
  Claim C8, as amended. Against queues that always accept an order eventually, the
  producers part_000 and part_001 number the orders they enqueue 1, 2, 3, ...: over the
  first \<open>2 ^ 64 - 1\<close> orders of a producer the order ids are strictly increasing, and
  they are not unique across producers, since both use the same numbers. The ids of the
  orders \<open>testBatch\<close> gets into the queue are strictly increasing too, whatever the
  queue answers.
\<close>

theorem producer_order_ids:
  assumes live0: "\<forall>k. \<exists>d. enq0 (k + d)" and live1: "\<forall>k. \<exists>d. enq1 (k + d)"
    and n: "n < 2 ^ 64"
  shows "\<exists>s p. part000_run enq0 clk0 n = Some s \<and> part001_run enq1 clk1 n = Some p
     \<and> map OrderID (enqueued s) = map of_nat [1..<Suc n]
     \<and> map OrderID (enqueued p) = map of_nat [1..<Suc n]
     \<and> sorted_wrt (<) (map OrderID (enqueued s))
     \<and> sorted_wrt (<) (map OrderID (enqueued p))
     \<and> sorted_wrt (<) (map OrderID (sent (testBatch enq2 clk2)))"
proof -
  note e = testBatch_ids_increasing [of enq2 clk2]
  from part000_run_total [OF live0] obtain s where s: "part000_run enq0 clk0 n = Some s"
    by blast
  from part001_run_total [OF live1] obtain p where p: "part001_run enq1 clk1 n = Some p"
    by blast
  from part000_run_counters [OF s]
  have ids: "map OrderID (enqueued s) = map (\<lambda>i. of_nat (Suc i)) [0..<n]" by blast
  from part001_run_counters [OF p]
  have idp: "map OrderID (enqueued p) = map (\<lambda>i. of_nat (Suc i)) [0..<n]" by blast
  note inc = ids_strictly_increasing [OF n]
  from ids have a: "map OrderID (enqueued s) = map of_nat [1..<Suc n]" by (simp only: ids_upt)
  from idp have b: "map OrderID (enqueued p) = map of_nat [1..<Suc n]" by (simp only: ids_upt)
  from inc have c: "sorted_wrt (<) (map OrderID (enqueued s))" by (simp only: ids)
  from inc have d: "sorted_wrt (<) (map OrderID (enqueued p))" by (simp only: idp)
  from s p a b c d e show ?thesis by (intro exI [of _ s] exI [of _ p] conjI)
qed

theorem producer_order_ids_witness:
  "\<exists>s p. part000_run always_accepts step_clock 3 = Some s
     \<and> part001_run always_accepts step_clock 3 = Some p
     \<and> map OrderID (enqueued s) = [1, 2, 3]
     \<and> map OrderID (enqueued p) = [1, 2, 3]"
proof -
  have n: "(3::nat) < 2 ^ 64" by simp
  note th = producer_order_ids [of always_accepts always_accepts 3 step_clock step_clock
      never_accepts step_clock, OF always_accepts_live always_accepts_live n]
  then obtain s p where big:
    "part000_run always_accepts step_clock 3 = Some s \<and> part001_run always_accepts step_clock 3 = Some p
     \<and> map OrderID (enqueued s) = map of_nat [1..<Suc 3]
     \<and> map OrderID (enqueued p) = map of_nat [1..<Suc 3]
     \<and> sorted_wrt (<) (map OrderID (enqueued s))
     \<and> sorted_wrt (<) (map OrderID (enqueued p))
     \<and> sorted_wrt (<) (map OrderID (sent (testBatch never_accepts step_clock)))"
    by (elim exE)
  have u: "map of_nat [1..<Suc 3] = [1, 2, 3 :: u64]" by (simp add: upt_rec)
  from big have s: "part000_run always_accepts step_clock 3 = Some s" by (elim conjE)
  from big have p: "part001_run always_accepts step_clock 3 = Some p" by (elim conjE)
  from big have a: "map OrderID (enqueued s) = map of_nat [1..<Suc 3]" by (elim conjE)
  from big have b: "map OrderID (enqueued p) = map of_nat [1..<Suc 3]" by (elim conjE)
  from a have a': "map OrderID (enqueued s) = [1, 2, 3]" by (simp only: u)
  from b have b': "map OrderID (enqueued p) = [1, 2, 3]" by (simp only: u)
  from s p a' b' show ?thesis by (intro exI [of _ s] exI [of _ p] conjI)
qed

lemma part000_order_id_nth:
  assumes "part000_run enq clk n = Some s" and "i < n"
  shows "OrderID (enqueued s ! i) = of_nat (Suc i)"
proof -
  from part000_run_counters [OF assms(1)]
  have ids: "map OrderID (enqueued s) = map (\<lambda>i. of_nat (Suc i)) [0..<n]" by blast
  from part000_run_length [OF assms(1)] assms(2) have "i < length (enqueued s)" by simp
  then have "OrderID (enqueued s ! i) = map OrderID (enqueued s) ! i" by simp
  also have "\<dots> = map (\<lambda>i. of_nat (Suc i)) [0..<n] ! i" by (simp only: ids)
  also from assms(2) have "\<dots> = of_nat (Suc i)" by (simp del: upt_Suc)
  finally show ?thesis .
qed

text \<open>
  Claim C8 as stated (strictly increasing over the lifetime of the producer) fails
  when the 64-bit counter wraps: the order number \<open>2 ^ 64 - 1\<close> of part_000 has the id
  \<open>2 ^ 64 - 1\<close> and the next one the id 0.
\<close>

theorem producer_order_ids_wrap:
  "\<exists>s. part000_run always_accepts step_clock (2 ^ 64) = Some s
     \<and> OrderID (enqueued s ! (2 ^ 64 - 2)) = 18446744073709551615
     \<and> OrderID (enqueued s ! (2 ^ 64 - 1)) = 0
     \<and> \<not> sorted_wrt (<) (map OrderID (enqueued s))"
proof -
  from part000_run_total [OF always_accepts_live]
  obtain s where s: "part000_run always_accepts step_clock (2 ^ 64) = Some s" by blast
  have i1: "(2::nat) ^ 64 - 2 < 2 ^ 64" and i2: "(2::nat) ^ 64 - 1 < 2 ^ 64" by simp_all
  have v1: "(of_nat (Suc (2 ^ 64 - 2)) :: u64) = 18446744073709551615" by simp
  have v2: "(of_nat (Suc (2 ^ 64 - 1)) :: u64) = 0" by simp
  from part000_order_id_nth [OF s i1] v1
  have a: "OrderID (enqueued s ! (2 ^ 64 - 2)) = 18446744073709551615" by (simp only:)
  from part000_order_id_nth [OF s i2] v2
  have b: "OrderID (enqueued s ! (2 ^ 64 - 1)) = 0" by (simp only:)
  have len: "length (map OrderID (enqueued s)) = 2 ^ 64"
    using part000_run_length [OF s] by (simp only: length_map)
  have c: "\<not> sorted_wrt (<) (map OrderID (enqueued s))"
  proof
    assume "sorted_wrt (<) (map OrderID (enqueued s))"
    then have "\<forall>i j. i < j \<longrightarrow> j < length (map OrderID (enqueued s)) \<longrightarrow>
        map OrderID (enqueued s) ! i < map OrderID (enqueued s) ! j"
      by (simp only: sorted_wrt_iff_nth_less)
    moreover have "(2::nat) ^ 64 - 2 < 2 ^ 64 - 1" by simp
    moreover from len i2 have "2 ^ 64 - 1 < length (map OrderID (enqueued s))" by (simp only:)
    ultimately have "map OrderID (enqueued s) ! (2 ^ 64 - 2) < map OrderID (enqueued s) ! (2 ^ 64 - 1)"
      by blast
    moreover from len i1 i2 have "map OrderID (enqueued s) ! (2 ^ 64 - 2) = OrderID (enqueued s ! (2 ^ 64 - 2))"
      "map OrderID (enqueued s) ! (2 ^ 64 - 1) = OrderID (enqueued s ! (2 ^ 64 - 1))"
      by (simp_all only: nth_map length_map)
    ultimately have "OrderID (enqueued s ! (2 ^ 64 - 2)) < OrderID (enqueued s ! (2 ^ 64 - 1))"
      by (simp only:)
    with a b show False by simp
  qed
  from s a b c show ?thesis by (intro exI [of _ s] conjI)
qed

section \<open>The symbol field\<close>

lemma copy_symbol_length:
  "length (copy_symbol name j arr) = length arr"
proof (induction name j arr rule: copy_symbol.induct)
  case (1 symbol j arr)
  show ?case
  proof (cases "j < length symbol \<and> j < 8")
    case True
    have "copy_symbol symbol j arr = copy_symbol symbol (j + 1) (arr[j := byte_of_char (symbol ! j)])"
      by (subst copy_symbol.simps) (simp only: True simp_thms if_True)
    with "1.IH" [OF True] show ?thesis by simp
  next
    case False
    show ?thesis by (subst copy_symbol.simps) (simp only: False if_False)
  qed
qed

lemma copy_symbol_nth:
  "i < length arr \<Longrightarrow>
     copy_symbol name j arr ! i =
       (if j \<le> i \<and> i < length name \<and> i < 8 then byte_of_char (name ! i) else arr ! i)"
proof (induction name j arr rule: copy_symbol.induct)
  case (1 symbol j arr)
  show ?case
  proof (cases "j < length symbol \<and> j < 8")
    case True
    from "1.prems" have "i < length (arr[j := byte_of_char (symbol ! j)])" by simp
    from "1.IH" [OF True this]
    have "copy_symbol symbol (j + 1) (arr[j := byte_of_char (symbol ! j)]) ! i =
        (if j + 1 \<le> i \<and> i < length symbol \<and> i < 8 then byte_of_char (symbol ! i)
         else arr[j := byte_of_char (symbol ! j)] ! i)" .
    moreover
    have "copy_symbol symbol j arr = copy_symbol symbol (j + 1) (arr[j := byte_of_char (symbol ! j)])"
      by (subst copy_symbol.simps) (simp only: True simp_thms if_True)
    ultimately show ?thesis using True "1.prems"
      by (cases "i = j") (auto simp: nth_list_update)
  next
    case False
    have "copy_symbol symbol j arr = arr"
      by (subst copy_symbol.simps) (simp only: False if_False)
    with False show ?thesis by auto
  qed
qed

text \<open>
  In \<open>main.go\<close> the symbol of an order is always eight bytes: the bytes of the name
  (at most eight of them) followed by zero bytes.
\<close>

lemma copy_symbol_pads:
  "copy_symbol name 0 (replicate 8 0)
     = take 8 (map byte_of_char name) @ replicate (8 - length name) 0"
proof (rule nth_equalityI)
  show "length (copy_symbol name 0 (replicate 8 0))
      = length (take 8 (map byte_of_char name) @ replicate (8 - length name) 0)"
    by (simp add: copy_symbol_length)
next
  fix i assume "i < length (copy_symbol name 0 (replicate 8 0))"
  then have i: "i < 8" by (simp add: copy_symbol_length)
  then show "copy_symbol name 0 (replicate 8 0) ! i
      = (take 8 (map byte_of_char name) @ replicate (8 - length name) 0) ! i"
    by (simp add: copy_symbol_nth nth_append)
qed

lemma batch_order_symbol:
  "length (Symbol (batch_order i t)) = 8
   \<and> Symbol (batch_order i t)
       = map byte_of_char (symbols_batch ! (i mod 3)) @ [0, 0, 0]"
proof -
  have r3: "replicate 3 (0::u8) = [0, 0, 0]" by (simp add: numeral_3_eq_3)
  have "i mod 3 = 0 \<or> i mod 3 = 1 \<or> i mod 3 = 2" by arith
  then show ?thesis
    by (auto simp: batch_order_def copy_symbol_pads symbols_batch_def copy_symbol_length r3)
qed

lemma single_order_symbol:
  "length (Symbol (single_order t)) = 8
   \<and> Symbol (single_order t) = map byte_of_char ''KOHLI'' @ [0, 0, 0]"
  by (simp add: single_order_def kohli_def)

text \<open>
  Claim C7, as amended. In the writers that treat \<open>Symbol\<close> as an \<open>[8]byte\<close> the
  symbol is exactly eight bytes, the bytes of the name (at most eight of them) followed
  by zero bytes: the array literal of \<open>testSingleOrder\<close> and of part_000, and the copy
  loop of \<open>testBatch\<close> (the same loop is in \<open>testContinuousStream\<close>) for any name.
  The producer part_001 instead assigns the integer constant \<open>0\<close> to \<open>Symbol\<close>:
  every order it enqueues carries the number 0 and no instrument code.
\<close>

theorem symbol_of_each_writer:
  "Symbol (single_order t) = map byte_of_char ''KOHLI'' @ [0, 0, 0]
   \<and> length (copy_symbol name 0 (replicate 8 0)) = 8
   \<and> copy_symbol name 0 (replicate 8 0)
       = take 8 (map byte_of_char name) @ replicate (8 - length name) 0
   \<and> Symbol (batch_order i t) = map byte_of_char (symbols_batch ! (i mod 3)) @ [0, 0, 0]
   \<and> (part000_run enq clk n = Some s \<longrightarrow>
        map Symbol (enqueued s) = replicate n (map byte_of_char ''KOHLI'' @ [0, 0, 0]))
   \<and> (part001_run enq clk n = Some p \<longrightarrow> map Symbol (enqueued p) = replicate n 0)"
proof -
  have k: "kohli = map byte_of_char ''KOHLI'' @ [0, 0, 0]" by (simp add: kohli_def)
  have a: "Symbol (single_order t) = map byte_of_char ''KOHLI'' @ [0, 0, 0]"
    using single_order_symbol [of t] by blast
  have b: "length (copy_symbol name 0 (replicate 8 0)) = 8"
    by (simp add: copy_symbol_length)
  have c: "Symbol (batch_order i t) = map byte_of_char (symbols_batch ! (i mod 3)) @ [0, 0, 0]"
    using batch_order_symbol [of i t] by blast
  have d: "part000_run enq clk n = Some s \<longrightarrow>
        map Symbol (enqueued s) = replicate n (map byte_of_char ''KOHLI'' @ [0, 0, 0])"
  proof
    assume "part000_run enq clk n = Some s"
    from part000_run_counters [OF this] have "map Symbol (enqueued s) = replicate n kohli"
      by blast
    then show "map Symbol (enqueued s) = replicate n (map byte_of_char ''KOHLI'' @ [0, 0, 0])"
      by (simp only: k)
  qed
  have e: "part001_run enq clk n = Some p \<longrightarrow> map Symbol (enqueued p) = replicate n 0"
    using part001_run_counters [of enq clk n p] by blast
  from a b copy_symbol_pads [of name] c d e show ?thesis by blast
qed

theorem symbol_of_each_writer_witness:
  "\<exists>s p. part000_run always_accepts step_clock 2 = Some s
     \<and> map Symbol (enqueued s)
         = [map byte_of_char ''KOHLI'' @ [0, 0, 0], map byte_of_char ''KOHLI'' @ [0, 0, 0]]
     \<and> part001_run always_accepts step_clock 2 = Some p
     \<and> map Symbol (enqueued p) = [0, 0]"
proof -
  from part000_run_total [OF always_accepts_live]
  obtain s where s: "part000_run always_accepts step_clock 2 = Some s" by blast
  from part001_run_total [OF always_accepts_live]
  obtain p where p: "part001_run always_accepts step_clock 2 = Some p" by blast
  have r: "replicate 2 x = [x, x]" for x :: 'a by (simp add: numeral_2_eq_2)
  note th = symbol_of_each_writer [of _ _ _ always_accepts step_clock 2 s p]
  from th s have a: "map Symbol (enqueued s)
      = replicate 2 (map byte_of_char ''KOHLI'' @ [0, 0, 0])" by blast
  from th p have b: "map Symbol (enqueued p) = replicate 2 0" by blast
  from a have a': "map Symbol (enqueued s)
      = [map byte_of_char ''KOHLI'' @ [0, 0, 0], map byte_of_char ''KOHLI'' @ [0, 0, 0]]"
    by (simp only: r)
  from b have b': "map Symbol (enqueued p) = [0, 0]" by (simp only: r)
  from s a' p b' show ?thesis by (intro exI [of _ s] exI [of _ p] conjI)
qed

text \<open>
  Claim C7 as stated (an eight-byte array holding a zero-padded instrument code in
  every process that writes orders) fails for part_001, line 73: the first order it
  enqueues carries the number 0 in \<open>Symbol\<close>.
\<close>

theorem part001_symbol_is_zero:
  "\<exists>p. part001_run always_accepts step_clock 1 = Some p \<and> map Symbol (enqueued p) = [0]"
proof -
  from part001_run_total [OF always_accepts_live]
  obtain p where p: "part001_run always_accepts step_clock 1 = Some p" by blast
  from part001_run_counters [OF p] have a: "map Symbol (enqueued p) = [0]"
    by simp
  from p a show ?thesis by (intro exI [of _ p] conjI)
qed

section \<open>The ring buffer protocol of the specification\<close>

subsection \<open>Runs of whole calls\<close>

lemma run_ops_append:
  "run_ops enq q (ops1 @ ops2) =
     (case run_ops enq q ops1 of
        (rs1, q1) \<Rightarrow> (case run_ops enq q1 ops2 of (rs2, q2) \<Rightarrow> (rs1 @ rs2, q2)))"
proof (induction ops1 arbitrary: q)
  case Nil
  show ?case by (simp split: prod.splits)
next
  case (Cons a ops1)
  show ?case
  proof (cases a)
    case (Enq x)
    then show ?thesis using Cons.IH by (simp split: prod.splits enq_result.splits)
  next
    case Deq
    then show ?thesis using Cons.IH by (simp split: prod.splits option.splits)
  qed
qed

text \<open>A call that finds its slot ready does the same under both readings of step 1.\<close>

lemma enqueue_ready_accepts:
  "seq (slots q ! (tail q mod capacity q)) = tail q \<Longrightarrow> enqueue_ready x q = enqueue x q"
  by (simp add: enqueue_ready_def enqueue_def Let_def)

lemma filled_step:
  assumes "k < C"
  shows "(filled C z xs k)[k := \<lparr>seq = k + 1, payload = xs ! k\<rparr>] = filled C z xs (Suc k)"
  using assms by (intro nth_equalityI) (auto simp: filled_def nth_list_update less_Suc_eq)

lemma filled_cong:
  "(\<And>i. i < k \<Longrightarrow> xs ! i = ys ! i) \<Longrightarrow> filled C z xs k = filled C z ys k"
  by (simp add: filled_def)

text \<open>Into the empty ring, up to \<open>C\<close> enqueues succeed and fill the slots in order.\<close>

lemma enqueue_fill:
  assumes enq: "enq = enqueue \<or> enq = enqueue_ready"
  shows "length xs \<le> C \<Longrightarrow>
     run_ops enq (create_ring C z) (map Enq xs)
       = (replicate (length xs) EnqOk,
          \<lparr>capacity = C, tail = length xs, head = 0, slots = filled C z xs (length xs)\<rparr>)"
proof (induction xs rule: rev_induct)
  case Nil
  show ?case by (simp add: create_ring_def filled_def)
next
  case (snoc x xs)
  let ?k = "length xs"
  from snoc.prems have k: "?k < C" by simp
  with snoc.IH have ih: "run_ops enq (create_ring C z) (map Enq xs)
       = (replicate ?k EnqOk, \<lparr>capacity = C, tail = ?k, head = 0, slots = filled C z xs ?k\<rparr>)"
    by simp
  have c1: "filled C z xs ?k = filled C z (xs @ [x]) ?k"
    by (rule filled_cong) (simp add: nth_append)
  from k have sq: "seq (filled C z (xs @ [x]) ?k ! ?k) = ?k" by (simp add: filled_def)
  from k have e0: "enqueue x \<lparr>capacity = C, tail = ?k, head = 0, slots = filled C z (xs @ [x]) ?k\<rparr>
      = (Ok, \<lparr>capacity = C, tail = Suc ?k, head = 0, slots = filled C z (xs @ [x]) (Suc ?k)\<rparr>)"
    using filled_step [OF k, of z "xs @ [x]"] sq by (simp add: enqueue_def Let_def)
  from k sq have "enqueue_ready x \<lparr>capacity = C, tail = ?k, head = 0, slots = filled C z (xs @ [x]) ?k\<rparr>
      = enqueue x \<lparr>capacity = C, tail = ?k, head = 0, slots = filled C z (xs @ [x]) ?k\<rparr>"
    by (intro enqueue_ready_accepts) simp
  with e0 enq have e: "enq x \<lparr>capacity = C, tail = ?k, head = 0, slots = filled C z (xs @ [x]) ?k\<rparr>
      = (Ok, \<lparr>capacity = C, tail = Suc ?k, head = 0, slots = filled C z (xs @ [x]) (Suc ?k)\<rparr>)"
    by (elim disjE) simp_all
  have "run_ops enq (create_ring C z) (map Enq (xs @ [x]))
      = run_ops enq (create_ring C z) (map Enq xs @ [Enq x])" by simp
  also have "\<dots> = (replicate ?k EnqOk @ [EnqOk],
      \<lparr>capacity = C, tail = Suc ?k, head = 0, slots = filled C z (xs @ [x]) (Suc ?k)\<rparr>)"
    by (simp only: run_ops_append ih c1) (simp add: e)
  finally show ?case by (simp add: replicate_append_same)
qed

lemma mod_Suc_self:
  "2 \<le> C \<Longrightarrow> Suc C mod C = Suc 0"
  by (simp add: mod_Suc)

subsection \<open>The capacity bound\<close>



text \<open>
  The refused call must leave the tail counter as it was. When step 1 of section 4.3
  is read as a fetch-and-increment made before the slot is checked, the refused call
  keeps its position, the retry after the dequeue is given the next position, whose
  slot still holds the second record, and is refused as well.
\<close>

lemma burnt_position:
  assumes C: "2 \<le> C" and len: "length xs = C"
  shows "outcomes enqueue (create_ring C z) (map Enq xs @ [Enq y, Deq, Enq y])
     = replicate C EnqOk @ [EnqFull, Got (xs ! 0), EnqFull]"
proof -
  let ?f = "filled C z xs C"
  let ?Q0 = "\<lparr>capacity = C, tail = C, head = 0, slots = ?f\<rparr>"
  from len have fill: "run_ops enqueue (create_ring C z) (map Enq xs) = (replicate C EnqOk, ?Q0)"
    using enqueue_fill [of enqueue xs C z] by simp
  from C have f0: "?f ! 0 = \<lparr>seq = 1, payload = xs ! 0\<rparr>" by (simp add: filled_def)
  from C have f1: "?f ! 1 = \<lparr>seq = 2, payload = xs ! 1\<rparr>" by (simp add: filled_def)
  let ?Q1 = "\<lparr>capacity = C, tail = Suc C, head = 0, slots = ?f\<rparr>"
  from C f0 have e1: "enqueue y ?Q0 = (QueueFull, ?Q1)"
    by (simp add: enqueue_def Let_def)
  let ?Q2 = "\<lparr>capacity = C, tail = Suc C, head = Suc 0,
                slots = ?f[0 := \<lparr>seq = C, payload = xs ! 0\<rparr>]\<rparr>"
  from C f0 have d1: "dequeue ?Q1 = Some (xs ! 0, ?Q2)"
    by (simp add: dequeue_def Let_def)
  from C f1 have e2: "enqueue y ?Q2 = (QueueFull, ?Q2\<lparr>tail := Suc (Suc C)\<rparr>)"
    by (simp add: enqueue_def Let_def mod_Suc_self)
  have "run_ops enqueue ?Q0 [Enq y, Deq, Enq y]
      = ([EnqFull, Got (xs ! 0), EnqFull], ?Q2\<lparr>tail := Suc (Suc C)\<rparr>)"
    by (simp add: e1 d1 e2)
  with fill show ?thesis
    by (simp add: outcomes_def run_ops_append)
qed

text \<open>
  With a single slot the second enqueue is not refused: position 1 maps to slot 0, whose
  sequence number after the first publication is 1. The unread record is overwritten
  and the slot is left with the sequence number 2, for which the consumer at position 0
  waits.
\<close>

lemma capacity_one_overwrites:
  "outcomes enqueue_ready (create_ring 1 z) [Enq a, Enq b, Deq] = [EnqOk, EnqOk, Wait]"
  by (simp add: outcomes_def create_ring_def enqueue_ready_def dequeue_def Let_def)

subsection \<open>Interleaved executions: the states that can be reached\<close>

lemma mod_Suc_neq: "2 \<le> C \<Longrightarrow> Suc n mod C \<noteq> n mod C"
  by (simp add: mod_Suc)












subsection \<open>Delivery in claim order\<close>



text \<open>
  A call of \<open>enqueue_ready\<close> is the three steps of a producer with no step of
  another process in between.
\<close>

lemma slot_written_published:
  "(sl :: 'a slot)\<lparr>payload := x, seq := n\<rparr> = \<lparr>seq = n, payload = x\<rparr>"
  by (cases sl) simp

lemma call_in_three_steps:
  assumes idle: "inflight s pid = None"
  shows "ring (exec [Claim pid x, Write pid, Publish pid] s) = snd (enqueue_ready x (ring s))"
    and "inflight (exec [Claim pid x, Write pid, Publish pid] s) = inflight s"
    and "observed (exec [Claim pid x, Write pid, Publish pid] s) = observed s"
proof -
  let ?q = "ring s"
  let ?i = "tail ?q mod capacity ?q"
  let ?sl = "slots ?q"
  have upd: "(?sl[?i := (?sl ! ?i)\<lparr>payload := x\<rparr>])
               [?i := ((?sl[?i := (?sl ! ?i)\<lparr>payload := x\<rparr>]) ! ?i)\<lparr>seq := tail ?q + 1\<rparr>]
             = ?sl[?i := \<lparr>seq = tail ?q + 1, payload = x\<rparr>]"
    by (cases "?i < length ?sl") (simp_all add: slot_written_published list_update_beyond)
  have none: "(inflight s)(pid := None) = inflight s" using idle by auto
  show "ring (exec [Claim pid x, Write pid, Publish pid] s) = snd (enqueue_ready x (ring s))"
    using idle upd by (simp add: exec_def enqueue_ready_def Let_def)
  show "inflight (exec [Claim pid x, Write pid, Publish pid] s) = inflight s"
    using idle none by (simp add: exec_def Let_def)
  show "observed (exec [Claim pid x, Write pid, Publish pid] s) = observed s"
    using idle by (simp add: exec_def Let_def)
qed

subsection \<open>Delivery in claim order for runs of whole calls\<close>

lemma ring_inv_create: "ring_inv C (create_ring C z) []"
  by (simp add: ring_inv_def create_ring_def)

lemma ring_inv_pendD:
  assumes "ring_inv C q pend" and "(p, x) \<in> set pend"
  shows "head q \<le> p" and "p < tail q" and "slots q ! (p mod C) = \<lparr>seq = p + 1, payload = x\<rparr>"
  using assms by (auto simp: ring_inv_def)

lemma ring_inv_slotD:
  assumes "ring_inv C q pend" and "i < C"
  shows "seq (slots q ! i) mod C = i
     \<or> (\<exists>(p, x) \<in> set pend. p mod C = i \<and> slots q ! i = \<lparr>seq = p + 1, payload = x\<rparr>)"
  using assms by (simp add: ring_inv_def)

lemma ring_inv_enqueue_full:
  assumes enq: "enq = enqueue \<or> enq = enqueue_ready"
    and inv: "ring_inv C q pend" and full: "seq (slots q ! (tail q mod C)) \<noteq> tail q"
  shows "\<exists>q'. enq x q = (QueueFull, q') \<and> ring_inv C q' pend"
proof -
  from inv have cap: "capacity q = C" by (simp add: ring_inv_def)
  with full have a: "enqueue x q = (QueueFull, q\<lparr>tail := tail q + 1\<rparr>)"
    by (simp add: enqueue_def Let_def)
  from cap full have b: "enqueue_ready x q = (QueueFull, q)"
    by (simp add: enqueue_ready_def Let_def)
  from inv have "ring_inv C (q\<lparr>tail := tail q + 1\<rparr>) pend"
    by (fastforce simp: ring_inv_def)
  with a b inv enq show ?thesis by (elim disjE) simp_all
qed

lemma ring_inv_enqueue_ok:
  assumes enq: "enq = enqueue \<or> enq = enqueue_ready"
    and C: "2 \<le> C" and inv: "ring_inv C q pend"
    and ready: "seq (slots q ! (tail q mod C)) = tail q"
  shows "enq x q = (Ok, q\<lparr>tail := tail q + 1,
            slots := (slots q)[tail q mod C := \<lparr>seq = tail q + 1, payload = x\<rparr>]\<rparr>)"
    and "ring_inv C (q\<lparr>tail := tail q + 1,
            slots := (slots q)[tail q mod C := \<lparr>seq = tail q + 1, payload = x\<rparr>]\<rparr>)
          (pend @ [(tail q, x)])"
proof -
  let ?t = "tail q" and ?i = "tail q mod C"
  let ?q' = "q\<lparr>tail := ?t + 1, slots := (slots q)[?i := \<lparr>seq = ?t + 1, payload = x\<rparr>]\<rparr>"
  from inv have cap: "capacity q = C" and len: "length (slots q) = C" and ht: "head q \<le> tail q"
    and srt: "sorted_wrt (<) (map fst pend)"
    by (simp_all add: ring_inv_def)
  from C have i: "?i < C" by simp
  from ready cap have "enqueue x q = (Ok, ?q')"
    by (simp add: enqueue_def Let_def)
  moreover from ready cap have "enqueue_ready x q = (Ok, ?q')"
    by (simp add: enqueue_ready_def Let_def)
  ultimately show "enq x q = (Ok, ?q')" using enq by (elim disjE) simp_all
  have free: "p mod C \<noteq> ?i" if "(p, y) \<in> set pend" for p y
  proof
    assume eq: "p mod C = ?i"
    from ring_inv_pendD(3) [OF inv that] eq have "seq (slots q ! ?i) = p + 1" by simp
    with ready have "?t = Suc p" by simp
    with eq mod_Suc_neq [OF C, of p] show False by simp
  qed
  have s1: "sorted_wrt (<) (map fst (pend @ [(?t, x)]))"
    using srt ring_inv_pendD(2) [OF inv] by (auto simp: sorted_wrt_append)
  have s2: "\<forall>(p, y) \<in> set (pend @ [(?t, x)]). head ?q' \<le> p \<and> p < tail ?q'
            \<and> slots ?q' ! (p mod C) = \<lparr>seq = p + 1, payload = y\<rparr>"
  proof (clarify)
    fix p y assume "(p, y) \<in> set (pend @ [(?t, x)])"
    then consider "(p, y) \<in> set pend" | "p = ?t" "y = x" by auto
    then show "head ?q' \<le> p \<and> p < tail ?q' \<and> slots ?q' ! (p mod C) = \<lparr>seq = p + 1, payload = y\<rparr>"
    proof cases
      case 1
      from ring_inv_pendD [OF inv 1] free [OF 1] show ?thesis by simp
    next
      case 2
      with ht i len show ?thesis by simp
    qed
  qed
  have s3: "\<forall>j < C. seq (slots ?q' ! j) mod C = j
      \<or> (\<exists>(p, y) \<in> set (pend @ [(?t, x)]). p mod C = j \<and> slots ?q' ! j = \<lparr>seq = p + 1, payload = y\<rparr>)"
  proof (intro allI impI)
    fix j assume j: "j < C"
    show "seq (slots ?q' ! j) mod C = j
      \<or> (\<exists>(p, y) \<in> set (pend @ [(?t, x)]). p mod C = j \<and> slots ?q' ! j = \<lparr>seq = p + 1, payload = y\<rparr>)"
    proof (cases "j = ?i")
      case True
      with i len show ?thesis by auto
    next
      case False
      then have "slots ?q' ! j = slots q ! j" by simp
      with ring_inv_slotD [OF inv j] show ?thesis by auto
    qed
  qed
  from cap len ht s1 s2 s3 show "ring_inv C ?q' (pend @ [(?t, x)])"
    by (simp add: ring_inv_def)
qed

lemma ring_inv_dequeue:
  assumes C: "2 \<le> C" and inv: "ring_inv C q pend" and deq: "dequeue q = Some (x, q')"
  shows "\<exists>rest. pend = (head q, x) # rest \<and> ring_inv C q' rest"
proof -
  let ?h = "head q" and ?i = "head q mod C"
  let ?s = "slots q ! ?i"
  from inv have cap: "capacity q = C" and len: "length (slots q) = C"
    and srt: "sorted_wrt (<) (map fst pend)"
    by (simp_all add: ring_inv_def)
  from C have i: "?i < C" by simp
  from deq cap have pub: "seq ?s = ?h + 1" and x: "x = payload ?s"
    and q': "q' = q\<lparr>head := ?h + 1, slots := (slots q)[?i := ?s\<lparr>seq := ?h + C\<rparr>]\<rparr>"
    by (auto simp: dequeue_def Let_def split: if_splits)
  from pub mod_Suc_neq [OF C, of ?h] have "seq ?s mod C \<noteq> ?i" by simp
  with ring_inv_slotD [OF inv i]
  obtain p y where py: "(p, y) \<in> set pend" "p mod C = ?i" "?s = \<lparr>seq = p + 1, payload = y\<rparr>"
    by auto
  from py(3) pub x have "p = ?h" "y = x" by simp_all
  with py(1) have mem: "(?h, x) \<in> set pend" by simp
  then obtain e rest where pd: "pend = e # rest" by (cases pend) auto
  obtain p0 x0 where e: "e = (p0, x0)" by (cases e) auto
  from pd e have "(p0, x0) \<in> set pend" by simp
  from ring_inv_pendD(1) [OF inv this] have p0: "?h \<le> p0" .
  from srt pd e have lt: "\<forall>(p, y) \<in> set rest. p0 < p" by auto
  have hd: "e = (?h, x)"
  proof (rule ccontr)
    assume "e \<noteq> (?h, x)"
    with mem pd have "(?h, x) \<in> set rest" by simp
    with lt have "p0 < ?h" by auto
    with p0 show False by simp
  qed
  with e have p0h: "p0 = ?h" by simp
  from ring_inv_pendD(2) [OF inv mem] have ht: "?h < tail q" .
  have rest_in: "(p, y) \<in> set pend" if "(p, y) \<in> set rest" for p y
    using that pd by simp
  have rest_gt: "?h < p" if "(p, y) \<in> set rest" for p y
    using that lt p0h by auto
  have other: "p mod C \<noteq> ?i" if "(p, y) \<in> set rest" for p y
  proof
    assume "p mod C = ?i"
    with ring_inv_pendD(3) [OF inv rest_in [OF that]] have "seq ?s = p + 1" by simp
    with pub rest_gt [OF that] show False by simp
  qed
  have s1: "sorted_wrt (<) (map fst rest)" using srt pd by simp
  have s2: "\<forall>(p, y) \<in> set rest. head q' \<le> p \<and> p < tail q'
            \<and> slots q' ! (p mod C) = \<lparr>seq = p + 1, payload = y\<rparr>"
  proof (clarify)
    fix p y assume r: "(p, y) \<in> set rest"
    from ring_inv_pendD [OF inv rest_in [OF r]] rest_gt [OF r] other [OF r]
    show "head q' \<le> p \<and> p < tail q' \<and> slots q' ! (p mod C) = \<lparr>seq = p + 1, payload = y\<rparr>"
      by (simp add: q')
  qed
  have s3: "\<forall>j < C. seq (slots q' ! j) mod C = j
      \<or> (\<exists>(p, y) \<in> set rest. p mod C = j \<and> slots q' ! j = \<lparr>seq = p + 1, payload = y\<rparr>)"
  proof (intro allI impI)
    fix j assume j: "j < C"
    show "seq (slots q' ! j) mod C = j
      \<or> (\<exists>(p, y) \<in> set rest. p mod C = j \<and> slots q' ! j = \<lparr>seq = p + 1, payload = y\<rparr>)"
    proof (cases "j = ?i")
      case True
      with i len show ?thesis by (simp add: q')
    next
      case False
      then have same: "slots q' ! j = slots q ! j" by (simp add: q')
      from ring_inv_slotD [OF inv j] show ?thesis
      proof
        assume "seq (slots q ! j) mod C = j"
        with same show ?thesis by simp
      next
        assume "\<exists>(p, y) \<in> set pend. p mod C = j \<and> slots q ! j = \<lparr>seq = p + 1, payload = y\<rparr>"
        then obtain p y where a: "(p, y) \<in> set pend" "p mod C = j"
          "slots q ! j = \<lparr>seq = p + 1, payload = y\<rparr>" by auto
        from a(2) False have "p \<noteq> ?h" by auto
        with a(1) pd hd have "(p, y) \<in> set rest" by auto
        with a(2,3) same show ?thesis by auto
      qed
    qed
  qed
  from cap len ht s1 s2 s3 have "ring_inv C q' rest"
    by (simp add: ring_inv_def q')
  with pd hd show ?thesis by simp
qed

lemma call_delivery_gen:
  assumes enq: "enq = enqueue \<or> enq = enqueue_ready" and C: "2 \<le> C"
  shows "ring_inv C q pend \<Longrightarrow>
     \<exists>zs. map snd pend @ accepted ops (fst (run_ops enq q ops))
       = delivered (fst (run_ops enq q ops)) @ zs"
proof (induction ops arbitrary: q pend)
  case Nil
  show ?case by simp
next
  case (Cons op ops)
  note inv = Cons.prems
  show ?case
  proof (cases op)
    case (Enq x)
    show ?thesis
    proof (cases "seq (slots q ! (tail q mod C)) = tail q")
      case True
      let ?q' = "q\<lparr>tail := tail q + 1,
            slots := (slots q)[tail q mod C := \<lparr>seq = tail q + 1, payload = x\<rparr>]\<rparr>"
      note st = ring_inv_enqueue_ok [OF enq C inv True, of x]
      obtain rs where rs: "fst (run_ops enq ?q' ops) = rs" by simp
      from Cons.IH [OF st(2)] rs obtain zs where
        zs: "map snd (pend @ [(tail q, x)]) @ accepted ops rs = delivered rs @ zs" by auto
      have r: "fst (run_ops enq q (Enq x # ops)) = EnqOk # rs"
        by (simp only: run_ops.simps st(1) prod.case enq_result.case split_beta fst_conv snd_conv rs)
      from zs show ?thesis by (simp only: Enq r) simp
    next
      case False
      from ring_inv_enqueue_full [OF enq inv False, of x]
      obtain q' where st: "enq x q = (QueueFull, q')" "ring_inv C q' pend" by blast
      obtain rs where rs: "fst (run_ops enq q' ops) = rs" by simp
      from Cons.IH [OF st(2)] rs obtain zs where
        zs: "map snd pend @ accepted ops rs = delivered rs @ zs" by auto
      have r: "fst (run_ops enq q (Enq x # ops)) = EnqFull # rs"
        by (simp only: run_ops.simps st(1) prod.case enq_result.case split_beta fst_conv snd_conv rs)
      from zs show ?thesis by (simp only: Enq r) simp
    qed
  next
    case Deq
    show ?thesis
    proof (cases "dequeue q")
      case None
      obtain rs where rs: "fst (run_ops enq q ops) = rs" by simp
      from Cons.IH [OF inv] rs obtain zs where
        zs: "map snd pend @ accepted ops rs = delivered rs @ zs" by auto
      have r: "fst (run_ops enq q (Deq # ops)) = Wait # rs"
        by (simp only: run_ops.simps None option.case split_beta fst_conv snd_conv rs)
      from zs show ?thesis by (simp only: Deq r) simp
    next
      case (Some xq)
      obtain x q' where xq: "xq = (x, q')" by (cases xq) auto
      from ring_inv_dequeue [OF C inv Some [unfolded xq]]
      obtain rest where pd: "pend = (head q, x) # rest" and inv': "ring_inv C q' rest" by blast
      obtain rs where rs: "fst (run_ops enq q' ops) = rs" by simp
      from Cons.IH [OF inv'] rs obtain zs where
        zs: "map snd rest @ accepted ops rs = delivered rs @ zs" by auto
      have r: "fst (run_ops enq q (Deq # ops)) = Got x # rs"
        by (simp only: run_ops.simps Some xq option.case prod.case split_beta fst_conv snd_conv rs)
      from zs show ?thesis by (simp only: Deq r pd) simp
    qed
  qed
qed

text \<open>
  When every call runs to its end before the next one begins, the records the consumer
  has received are an initial part of the records accepted, in the order of the calls,
  under both readings of step 1 of \<open>enqueue\<close>.
\<close>

lemma whole_calls_fifo:
  assumes "enq = enqueue \<or> enq = enqueue_ready" and "2 \<le> C"
  shows "\<exists>zs. accepted ops (outcomes enq (create_ring C z) ops)
       = delivered (outcomes enq (create_ring C z) ops) @ zs"
  using call_delivery_gen [OF assms ring_inv_create, of ops z] by (simp add: outcomes_def)

subsection \<open>The claim made when the slot is ready returns at once\<close>

text \<open>
  Like \<open>enqueue\<close>, the operation \<open>enqueue_ready\<close> is one step with two results; a
  refused call changes nothing, an accepted call takes exactly one position.
\<close>

lemma enqueue_ready_returns_at_once:
  "(fst (enqueue_ready x q) = Ok \<or> fst (enqueue_ready x q) = QueueFull)
   \<and> head (snd (enqueue_ready x q)) = head q
   \<and> capacity (snd (enqueue_ready x q)) = capacity q
   \<and> (fst (enqueue_ready x q) = QueueFull \<longrightarrow> snd (enqueue_ready x q) = q)
   \<and> (fst (enqueue_ready x q) = Ok \<longrightarrow> tail (snd (enqueue_ready x q)) = tail q + 1)"
  by (simp add: enqueue_ready_def Let_def)

section \<open>Creating a queue\<close>

text \<open>
  Claim C6, as amended. Every call of the creation operation in \<open>testInit\<close> passes
  exactly one argument, the path; no capacity is supplied by the caller. When the first
  creation succeeds the harness reads the capacity back from the queue, and a creation
  that fails ends the process.
\<close>

theorem create_takes_path_only:
  "(\<forall>as \<in> set (create_calls (testInit ok)). \<exists>p. as = [Str p])
   \<and> (ok 0 \<longrightarrow> Call ''q.Capacity'' [] \<in> set (testInit ok))
   \<and> (\<not> (ok 0 \<and> ok 1) \<longrightarrow> last (testInit ok) = Fatal)"
  by (simp add: testInit_def)

theorem create_takes_path_only_witness:
  "create_calls (testInit create_succeeds)
     = [[Str ''/tmp/sex''], [Str ''/tmp/sex_status'']]
   \<and> Call ''q.Capacity'' [] \<in> set (testInit create_succeeds)"
  using create_takes_path_only [of create_succeeds]
  by (simp add: testInit_def create_succeeds_def queueFilePath_def)

text \<open>
  Claim C6 as stated (the creation operation is called as \<open>create(path, capacity)\<close>)
  fails at both call sites of \<open>testInit\<close>.
\<close>

theorem create_has_no_capacity_argument:
  "\<not> (\<forall>as \<in> set (create_calls (testInit create_succeeds)). \<exists>p c. as = [Str p, Num c])"
  by (simp add: testInit_def create_succeeds_def)

section \<open>Opening a queue\<close>

text \<open>
  Claim C5. \<open>open\<close> fails with \<open>NotFound\<close> exactly when there is no file at the
  path, and with \<open>FormatMismatch\<close> exactly when there is a file whose magic or version
  is not the expected one or whose capacity or slot size does not match; it succeeds in
  the remaining case, and the two errors are different values.
\<close>

theorem open_errors:
  "(open_region w fs path = Inl NotFound \<longleftrightarrow> fs path = None)
   \<and> (open_region w fs path = Inl FormatMismatch \<longleftrightarrow>
        (\<exists>f. fs path = Some f
           \<and> (file_magic f \<noteq> want_magic w \<or> file_version f \<noteq> want_version w
              \<or> file_capacity f \<noteq> want_capacity w \<or> file_slot_size f \<noteq> want_slot_size w)))
   \<and> (open_region w fs path = Inr g \<longleftrightarrow> fs path = Some g \<and> header_matches w g)
   \<and> NotFound \<noteq> FormatMismatch"
  by (auto simp: open_region_def header_matches_def split: option.splits)

theorem open_errors_witness:
  "open_region sample_opener sample_fs ''/tmp/none'' = Inl NotFound
   \<and> open_region sample_opener sample_fs ''/tmp/sex_status'' = Inl FormatMismatch
   \<and> open_region sample_opener sample_fs ''/tmp/sex'' = Inr good_file"
proof -
  have a: "sample_fs ''/tmp/none'' = None" by (simp add: sample_fs_def)
  have b: "sample_fs ''/tmp/sex_status'' = Some blank_file" by (simp add: sample_fs_def)
  have c: "sample_fs ''/tmp/sex'' = Some good_file" by (simp add: sample_fs_def)
  have d: "file_magic blank_file \<noteq> want_magic sample_opener"
    by (simp add: blank_file_def sample_opener_def)
  have e: "header_matches sample_opener good_file"
    by (simp add: header_matches_def good_file_def sample_opener_def)
  from open_errors [of sample_opener sample_fs "''/tmp/none''"] a
  have 1: "open_region sample_opener sample_fs ''/tmp/none'' = Inl NotFound" by blast
  from open_errors [of sample_opener sample_fs "''/tmp/sex_status''"] b d
  have 2: "open_region sample_opener sample_fs ''/tmp/sex_status'' = Inl FormatMismatch" by blast
  from open_errors [of sample_opener sample_fs "''/tmp/sex''" good_file] c e
  have 3: "open_region sample_opener sample_fs ''/tmp/sex'' = Inr good_file" by blast
  from 1 2 3 show ?thesis by blast
qed

section \<open>Enqueue never waits\<close>



section \<open>The codec round trip\<close>

lemma length_bytes_of_nat: "length (bytes_of_nat n x) = n"
  by (induction n arbitrary: x) simp_all

lemma length_le_bytes: "length (le_bytes n w) = n"
  by (simp add: le_bytes_def length_bytes_of_nat)

lemma unat_byte_of_nat: "unat (of_nat (x mod 256) :: u8) = x mod 256"
  by (simp add: unat_of_nat)

lemma nat_of_bytes_of_nat: "nat_of_bytes (bytes_of_nat n x) = x mod 256 ^ n"
proof (induction n arbitrary: x)
  case 0
  show ?case by simp
next
  case (Suc n)
  have "nat_of_bytes (bytes_of_nat (Suc n) x) = x mod 256 + 256 * (x div 256 mod 256 ^ n)"
    by (simp only: bytes_of_nat.simps nat_of_bytes.simps unat_byte_of_nat Suc.IH)
  also have "\<dots> = x mod (256 * 256 ^ n)"
    by (simp only: mod_mult2_eq add.commute)
  finally show ?case by simp
qed

lemma le_word_bytes64: "le_word (le_bytes 8 w) = (w :: u64)"
proof -
  have "unat w < 2 ^ 64" using unsigned_less [of w] by simp
  then have "unat w mod 256 ^ 8 = unat w" by simp
  then show ?thesis by (simp add: le_word_def le_bytes_def nat_of_bytes_of_nat)
qed

lemma le_word_bytes32: "le_word (le_bytes 4 w) = (w :: u32)"
proof -
  have "unat w < 2 ^ 32" using unsigned_less [of w] by simp
  then have "unat w mod 256 ^ 4 = unat w" by simp
  then show ?thesis by (simp add: le_word_def le_bytes_def nat_of_bytes_of_nat)
qed

lemma encode_length:
  "length (Symbol ord) = 8 \<Longrightarrow> length (encode ord) = record_size"
  by (simp add: encode_def record_size_def length_le_bytes)

lemma decode_encode:
  assumes "length (Symbol ord) = 8"
  shows "decode (encode ord) = Some ord"
proof -
  let ?a = "le_bytes 8 (OrderID ord)" and ?b = "le_bytes 4 (ClientID ord)"
  let ?c = "le_bytes 4 (Quantity ord)" and ?d = "le_bytes 8 (Price ord)"
  let ?e = "le_bytes 8 (Timestamp ord)"
  have la: "length ?a = 8" and lb: "length ?b = 4" and lc: "length ?c = 4"
    and ld: "length ?d = 8" and le: "length ?e = 8"
    by (simp_all only: length_le_bytes)
  note ls = assms
  have enc: "encode ord = ?a @ ?b @ ?c @ ?d @ [Side ord] @ [Status ord] @ Symbol ord @ ?e"
    by (simp add: encode_def)
  have f1: "take 8 (encode ord) = ?a" by (simp add: enc la)
  have f2: "take 4 (drop 8 (encode ord)) = ?b" by (simp add: enc la lb)
  have f3: "take 4 (drop 12 (encode ord)) = ?c" by (simp add: enc la lb lc)
  have f4: "take 8 (drop 16 (encode ord)) = ?d" by (simp add: enc la lb lc ld)
  have f5: "encode ord ! 24 = Side ord" by (simp add: enc la lb lc ld nth_append)
  have f6: "encode ord ! 25 = Status ord" by (simp add: enc la lb lc ld nth_append)
  have f7: "take 8 (drop 26 (encode ord)) = Symbol ord" by (simp add: enc la lb lc ld ls)
  have f8: "take 8 (drop 34 (encode ord)) = ?e" by (simp add: enc la lb lc ld ls le)
  have len: "length (encode ord) = record_size" by (rule encode_length [OF assms])
  show ?thesis
    by (simp add: decode_def len f1 f2 f3 f4 f5 f6 f7 f8 le_word_bytes64 le_word_bytes32)
qed

text \<open>
  Claim C3. For every valid order the encoding has the fixed record size and decoding
  it gives the order back, field for field. The symbol occupies the eight bytes at
  offset 26 as it stands in the order; for a name shorter than eight characters, copied
  into the zeroed array as \<open>main.go\<close> does, these are the bytes of the name followed by
  zero bytes.
\<close>

theorem codec_round_trip:
  assumes "valid_order ord"
  shows "length (encode ord) = record_size
     \<and> decode (encode ord) = Some ord
     \<and> take 8 (drop 26 (encode ord)) = Symbol ord
     \<and> (length name < 8 \<and> Symbol ord = copy_symbol name 0 (replicate 8 0) \<longrightarrow>
          take 8 (drop 26 (encode ord)) = map byte_of_char name @ replicate (8 - length name) 0)"
proof -
  from assms have ls: "length (Symbol ord) = 8" by (simp add: valid_order_def)
  note rt = decode_encode [OF ls]
  have len: "length (encode ord) = record_size" by (rule encode_length [OF ls])
  have sym: "take 8 (drop 26 (encode ord)) = Symbol ord"
    using ls by (simp add: encode_def length_le_bytes)
  have pad: "length name < 8 \<and> Symbol ord = copy_symbol name 0 (replicate 8 0) \<longrightarrow>
          take 8 (drop 26 (encode ord)) = map byte_of_char name @ replicate (8 - length name) 0"
    using sym by (simp add: copy_symbol_pads)
  from len rt sym pad show ?thesis by blast
qed

theorem codec_round_trip_witness:
  "decode (encode (batch_order 1 7)) = Some (batch_order 1 7)
   \<and> take 8 (drop 26 (encode (batch_order 1 7))) = map byte_of_char ''ROHIT'' @ [0, 0, 0]
   \<and> length (encode (batch_order 1 7)) = 42"
proof -
  have sy: "Symbol (batch_order 1 7) = copy_symbol ''ROHIT'' 0 (replicate 8 0)"
    by (simp add: batch_order_def symbols_batch_def)
  have l: "length (Symbol (batch_order 1 7)) = 8"
    by (simp only: sy copy_symbol_length) simp
  have sd: "Side (batch_order 1 7) = 1" by (simp add: batch_order_def sides_def)
  from l sd have v: "valid_order (batch_order 1 7)" by (simp add: valid_order_def)
  have n: "length ''ROHIT'' < 8" by simp
  note th = codec_round_trip [OF v, of "''ROHIT''"]
  from th have a: "decode (encode (batch_order 1 7)) = Some (batch_order 1 7)" by blast
  from th have b: "length (encode (batch_order 1 7)) = record_size" by blast
  from th n sy have "take 8 (drop 26 (encode (batch_order 1 7)))
      = map byte_of_char ''ROHIT'' @ replicate (8 - length ''ROHIT'') 0" by blast
  moreover have "replicate (8 - length ''ROHIT'') (0::u8) = [0, 0, 0]"
    by (simp add: numeral_3_eq_3)
  ultimately have c: "take 8 (drop 26 (encode (batch_order 1 7)))
      = map byte_of_char ''ROHIT'' @ [0, 0, 0]" by (simp only:)
  from a b c show ?thesis by (simp add: record_size_def)
qed

end
